theory Spec2Isabelle
  imports Main "HOL-Library.AList" "HOL-Library.Multiset"
begin

section \<open>Numbers\<close>

text \<open>
  The score keeper stores a roster (\<open>Player[]\<close>) and a round list (\<open>GameRound[]\<close>); the
  four computed values \<open>totals\<close>, \<open>debtsByRound\<close>, \<open>finalSettlement\<close> and
  \<open>settlementByPerson\<close> are pure functions of them. Both screens of the application hold the
  same text for these functions, so one embedding covers both.

  A JavaScript \<open>number\<close> is an IEEE binary64 value: finite, one of the two infinities, or
  NaN. Amounts are whole currency units, and the model covers the numbers whose finite values
  are integers: \<open>Fin n\<close> is the double of value \<open>n\<close>. The operations the engine uses
  (\<open>+\<close>, \<open>-\<close>, \<open>Math.min\<close>, \<open>Math.abs\<close>, comparisons) take such numbers to such numbers,
  because the double nearest to an integer is an integer. Fractional amounts are outside the
  model. The two zeros are one value: the engine never divides, and \<open>+\<close>, \<open>-\<close>, \<open><\<close>,
  \<open>===\<close>, \<open>Math.min\<close> and \<open>Math.abs\<close> do not tell them apart.
\<close>

datatype jsnum = Fin int | PosInf | NegInf | NaN

text \<open>
  Rounding to binary64, round-to-nearest with ties to even, on a non-negative integer \<open>a\<close>.
  A double has 53 significant bits: \<open>shift_of a\<close> is the number of low bits of \<open>a\<close> beyond
  them (0 below \<open>2^53 = 9007199254740992\<close>), so \<open>a div 2 ^ shift_of a\<close> is the 53-bit
  significand and \<open>a mod 2 ^ shift_of a\<close> the part that is rounded away, upwards when it is
  more than half a unit of the last place, or exactly half with an odd significand.
\<close>

function shift_of :: "int \<Rightarrow> nat" where
  "shift_of a = (if a < 9007199254740992 then 0 else Suc (shift_of (a div 2)))"
  by pat_completeness auto
termination
  by (relation "measure nat") auto

definition round_even :: "int \<Rightarrow> int" where
  "round_even a =
     (let e = shift_of a; q = a div 2 ^ e; r = a mod 2 ^ e
      in if 2 ^ e < 2 * r \<or> (2 * r = 2 ^ e \<and> odd q) then (q + 1) * 2 ^ e else q * 2 ^ e)"

text \<open>
  The double nearest to the integer \<open>n\<close>: a rounded magnitude of \<open>2^1024\<close> or more overflows
  to an infinity. The largest finite double is \<open>(2^53 - 1) * 2^971\<close>.
\<close>

definition fl :: "int \<Rightarrow> jsnum" where
  "fl n =
     (let v = round_even \<bar>n\<bar>
      in if 2 ^ 1024 \<le> v then (if 0 < n then PosInf else NegInf)
         else Fin (if 0 \<le> n then v else - v))"

definition max_double :: int where
  "max_double = 9007199254740991 * 2 ^ 971"

text \<open>\<open>a + b\<close>, \<open>-a\<close> and \<open>a - b\<close> (which IEEE defines as \<open>a + (-b)\<close>).\<close>

fun jadd :: "jsnum \<Rightarrow> jsnum \<Rightarrow> jsnum" where
  "jadd (Fin a) (Fin b) = fl (a + b)"
| "jadd NaN _ = NaN"
| "jadd _ NaN = NaN"
| "jadd PosInf NegInf = NaN"
| "jadd NegInf PosInf = NaN"
| "jadd PosInf _ = PosInf"
| "jadd _ PosInf = PosInf"
| "jadd NegInf _ = NegInf"
| "jadd _ NegInf = NegInf"

fun jneg :: "jsnum \<Rightarrow> jsnum" where
  "jneg (Fin a) = Fin (- a)"
| "jneg PosInf = NegInf"
| "jneg NegInf = PosInf"
| "jneg NaN = NaN"

definition jsub :: "jsnum \<Rightarrow> jsnum \<Rightarrow> jsnum" where
  "jsub a b = jadd a (jneg b)"

text \<open>\<open>a < b\<close>: false when either side is NaN. \<open>a > b\<close> is \<open>jlt b a\<close>.\<close>

fun jlt :: "jsnum \<Rightarrow> jsnum \<Rightarrow> bool" where
  "jlt NaN _ = False"
| "jlt _ NaN = False"
| "jlt (Fin a) (Fin b) = (a < b)"
| "jlt PosInf _ = False"
| "jlt _ NegInf = False"
| "jlt NegInf _ = True"
| "jlt _ PosInf = True"

text \<open>\<open>Math.min(a, b)\<close> and \<open>Math.abs(a)\<close>.\<close>

fun jmin :: "jsnum \<Rightarrow> jsnum \<Rightarrow> jsnum" where
  "jmin NaN _ = NaN"
| "jmin _ NaN = NaN"
| "jmin a b = (if jlt a b then a else b)"

fun jabs :: "jsnum \<Rightarrow> jsnum" where
  "jabs (Fin a) = Fin \<bar>a\<bar>"
| "jabs PosInf = PosInf"
| "jabs NegInf = PosInf"
| "jabs NaN = NaN"

text \<open>\<open>Number.isFinite(v)\<close>, and \<open>Number.isFinite(v) ? v : 0\<close>, whose value is always finite.\<close>

fun isFinite :: "jsnum \<Rightarrow> bool" where
  "isFinite (Fin _) = True"
| "isFinite _ = False"

fun finite_or_zero :: "jsnum \<Rightarrow> int" where
  "finite_or_zero (Fin a) = a"
| "finite_or_zero _ = 0"

text \<open>
  \<open>array.sort(comparefn)\<close>. The sort is stable, and a NaN result of \<open>comparefn\<close> counts as
  0. When \<open>comparefn\<close> orders the elements consistently every stable sort returns the same
  list, and the model is insertion sort: \<open>x\<close> moves behind \<open>y\<close> exactly when
  \<open>comparefn(x, y) > 0\<close>. The comparators of the engine are differences of amounts; they
  are consistent on finite and infinite amounts, and only a NaN amount, which no balance
  is, would leave the order to the engine.
\<close>

fun insert_by :: "('a \<Rightarrow> 'a \<Rightarrow> jsnum) \<Rightarrow> 'a \<Rightarrow> 'a list \<Rightarrow> 'a list" where
  "insert_by comparefn x [] = [x]"
| "insert_by comparefn x (y # ys) =
     (if jlt (Fin 0) (comparefn x y) then y # insert_by comparefn x ys else x # y # ys)"

definition js_sort :: "('a \<Rightarrow> 'a \<Rightarrow> jsnum) \<Rightarrow> 'a list \<Rightarrow> 'a list" where
  "js_sort comparefn xs = foldr (insert_by comparefn) xs []"

section \<open>Data model\<close>

text \<open>
  \<open>type Player = { id; name }\<close> and \<open>type GameRound = { id; bankerId; values }\<close>. The fields
  \<open>id\<close> and \<open>values\<close> are renamed (\<open>pid\<close>, \<open>rid\<close>, \<open>rvalues\<close>), since \<open>id\<close> is the
  identity function of HOL. \<open>RoundValues = Record<string, number>\<close> is a map from player ids
  to numbers; an unset banker is the empty string, which is what \<open>!round.bankerId\<close> tests.
\<close>

record Player =
  pid :: string
  pname :: string

type_synonym RoundValues = "string \<rightharpoonup> jsnum"

record GameRound =
  rid :: string
  bankerId :: string
  rvalues :: RoundValues

record DebtItem =
  roundIndex :: nat
  d_bankerId :: string
  d_fromId :: string
  d_toId :: string
  d_amount :: int

text \<open>The elements of \<open>transactions\<close>, of \<open>debtors\<close>/\<open>creditors\<close>, and of \<open>settlementByPerson\<close>.\<close>

record Transaction =
  fromId :: string
  toId :: string
  amount :: jsnum

record Entry =
  e_id :: string
  e_amount :: jsnum

record PersonSettlement =
  personId :: string
  pay :: jsnum
  receive :: jsnum
  net :: jsnum

text \<open>
  \<open>acc: Record<string, number>\<close> is read back with \<open>Object.entries\<close>, so the order of its
  keys matters: it is an association list in insertion order. \<open>acc[k] = v\<close> overwrites in place
  or appends, which is \<open>AList.update\<close>. (Ids are the strings made by \<open>uid()\<close>, never array
  indices, so insertion order is the order of \<open>Object.entries\<close>.)
\<close>

type_synonym Balances = "(string \<times> jsnum) list"

section \<open>Round normalizer and balance aggregator: \<open>totals\<close>\<close>

text \<open>\<open>round.values[id] ?? 0\<close>\<close>

definition value_or_zero :: "RoundValues \<Rightarrow> string \<Rightarrow> jsnum" where
  "value_or_zero vs k = (case vs k of None \<Rightarrow> Fin 0 | Some v \<Rightarrow> v)"

text \<open>
  \<open>players.filter((p) => p.id !== round.bankerId).reduce((s, p) => s + (round.values[p.id] ?? 0), 0)\<close>
\<close>

definition sumParticipants :: "Player list \<Rightarrow> GameRound \<Rightarrow> jsnum" where
  "sumParticipants players round =
     fold (\<lambda>p s. jadd s (value_or_zero (rvalues round) (pid p)))
          (filter (\<lambda>p. pid p \<noteq> bankerId round) players) (Fin 0)"

text \<open>\<open>{ ...round.values, [round.bankerId]: -sumParticipants }\<close>\<close>

definition finalValues :: "Player list \<Rightarrow> GameRound \<Rightarrow> RoundValues" where
  "finalValues players round =
     (rvalues round)(bankerId round \<mapsto> jneg (sumParticipants players round))"

text \<open>
  The amount the loop over \<open>Object.entries(finalValues)\<close> adds to \<open>acc[k]\<close>: the entry of
  \<open>k\<close> with a non-finite number read as 0, and nothing when \<open>k\<close> has no entry.
\<close>

definition normalized :: "Player list \<Rightarrow> GameRound \<Rightarrow> string \<Rightarrow> int" where
  "normalized players round k =
     (case finalValues players round k of None \<Rightarrow> 0 | Some v \<Rightarrow> finite_or_zero v)"

text \<open>
  The body of \<open>rounds.forEach\<close>. Every key of \<open>finalValues\<close> occurs once in
  \<open>Object.entries\<close>, and the loop body touches \<open>acc[pid]\<close> only, and only when
  \<open>acc[pid] !== undefined\<close>: so each key of \<open>acc\<close> receives its own addend once, whatever
  the order of the entries, and keys outside \<open>acc\<close> are skipped. The addition is the
  addition of doubles.
\<close>

definition totals_round :: "Player list \<Rightarrow> GameRound \<Rightarrow> Balances \<Rightarrow> Balances" where
  "totals_round players round acc =
     (if bankerId round = [] then acc
      else map (\<lambda>(k, a). (k, jadd a (Fin (normalized players round k)))) acc)"

definition totals :: "Player list \<Rightarrow> GameRound list \<Rightarrow> Balances" where
  "totals players rounds =
     fold (totals_round players) rounds
          (fold (\<lambda>p acc. AList.update (pid p) (Fin 0) acc) players [])"

text \<open>\<open>totals[id] ?? 0\<close>, the balance of a player as the screens read it.\<close>

definition balance :: "Balances \<Rightarrow> string \<Rightarrow> jsnum" where
  "balance acc k = (case map_of acc k of None \<Rightarrow> Fin 0 | Some v \<Rightarrow> v)"

section \<open>Per-round debt expander: \<open>debtsByRound\<close>\<close>

text \<open>The body of \<open>for (const p of players)\<close>; \<open>items.push\<close> appends.\<close>

definition debt_step :: "nat \<Rightarrow> GameRound \<Rightarrow> Player \<Rightarrow> DebtItem list \<Rightarrow> DebtItem list" where
  "debt_step idx round p items =
     (if pid p = bankerId round then items
      else case value_or_zero (rvalues round) (pid p) of
             Fin v \<Rightarrow>
               if v = 0 then items
               else if v > 0 then
                 items @ [\<lparr>roundIndex = idx + 1, d_bankerId = bankerId round,
                           d_fromId = bankerId round, d_toId = pid p, d_amount = v\<rparr>]
               else
                 items @ [\<lparr>roundIndex = idx + 1, d_bankerId = bankerId round,
                           d_fromId = pid p, d_toId = bankerId round, d_amount = \<bar>v\<bar>\<rparr>]
           | _ \<Rightarrow> items)"

definition debts_round :: "Player list \<Rightarrow> nat \<times> GameRound \<Rightarrow> DebtItem list \<Rightarrow> DebtItem list" where
  "debts_round players ir items =
     (case ir of (idx, round) \<Rightarrow>
        if bankerId round = [] then items
        else fold (debt_step idx round) players items)"

definition debtsByRound :: "Player list \<Rightarrow> GameRound list \<Rightarrow> DebtItem list" where
  "debtsByRound players rounds = fold (debts_round players) (List.enumerate 0 rounds) []"

section \<open>Settlement minimizer: \<open>finalSettlement\<close>\<close>

text \<open>
  \<open>Object.entries(balances).filter(...).map(...).sort((a, b) => a.amount - b.amount)\<close>
\<close>

definition debtors :: "Balances \<Rightarrow> Entry list" where
  "debtors balances =
     js_sort (\<lambda>a b. jsub (e_amount a) (e_amount b))
       (map (\<lambda>(k, a). \<lparr>e_id = k, e_amount = jneg a\<rparr>)
            (filter (\<lambda>(k, a). jlt a (Fin 0)) balances))"

definition creditors :: "Balances \<Rightarrow> Entry list" where
  "creditors balances =
     js_sort (\<lambda>a b. jsub (e_amount a) (e_amount b))
       (map (\<lambda>(k, a). \<lparr>e_id = k, e_amount = a\<rparr>)
            (filter (\<lambda>(k, a). jlt (Fin 0) a) balances))"

text \<open>
  The \<open>while\<close> loop. Its two index variables only move forward and the elements behind them
  are never read again, so the state is the two remaining suffixes: the head of \<open>ds\<close> is
  \<open>debtors[debtorIndex]\<close> with the amount the loop has left in it. The loop of the source
  need not end: on two infinite amounts \<open>Infinity - Infinity\<close> is NaN, which is neither
  \<open>> 0\<close> nor \<open>=== 0\<close>, and no index moves again. So the model is a partial function:
  \<open>None\<close> is a loop that never returns.
\<close>

partial_function (option) settle_loop ::
  "Entry list \<Rightarrow> Entry list \<Rightarrow> Transaction list \<Rightarrow> Transaction list option" where
  "settle_loop ds cs transactions =
     (case ds of
        [] \<Rightarrow> Some transactions
      | debtor # ds' \<Rightarrow>
          (case cs of
             [] \<Rightarrow> Some transactions
           | creditor # cs' \<Rightarrow>
               (let amt = jmin (e_amount debtor) (e_amount creditor);
                    transactions' =
                      (if jlt (Fin 0) amt
                       then transactions @
                              [\<lparr>fromId = e_id debtor, toId = e_id creditor, amount = amt\<rparr>]
                       else transactions);
                    debtor' = (if jlt (Fin 0) amt
                               then debtor\<lparr>e_amount := jsub (e_amount debtor) amt\<rparr>
                               else debtor);
                    creditor' = (if jlt (Fin 0) amt
                                 then creditor\<lparr>e_amount := jsub (e_amount creditor) amt\<rparr>
                                 else creditor)
                in settle_loop
                     (if e_amount debtor' = Fin 0 then ds' else debtor' # ds')
                     (if e_amount creditor' = Fin 0 then cs' else creditor' # cs')
                     transactions')))"

declare settle_loop.simps [code]

text \<open>\<open>transactions.sort((a, b) => b.amount - a.amount)\<close>\<close>

definition finalSettlement :: "Balances \<Rightarrow> Transaction list option" where
  "finalSettlement balances =
     map_option (js_sort (\<lambda>a b. jsub (amount b) (amount a)))
       (settle_loop (debtors balances) (creditors balances) [])"

section \<open>Per-person summary: \<open>settlementByPerson\<close>\<close>

text \<open>
  \<open>reduce((s, t) => s + t.amount, 0)\<close> is a left fold of double additions;
  the final sort is by \<open>Math.abs(b.net) - Math.abs(a.net)\<close>.
\<close>

definition person_row :: "Transaction list \<Rightarrow> Player \<Rightarrow> PersonSettlement" where
  "person_row settlement p =
     (let pay = fold (\<lambda>t s. jadd s (amount t)) (filter (\<lambda>t. fromId t = pid p) settlement) (Fin 0);
          receive = fold (\<lambda>t s. jadd s (amount t)) (filter (\<lambda>t. toId t = pid p) settlement) (Fin 0)
      in \<lparr>personId = pid p, pay = pay, receive = receive, net = jsub receive pay\<rparr>)"

definition settlementByPerson :: "Transaction list \<Rightarrow> Player list \<Rightarrow> PersonSettlement list" where
  "settlementByPerson settlement players =
     js_sort (\<lambda>a b. jsub (jabs (net b)) (jabs (net a))) (map (person_row settlement) players)"

section \<open>Roster removal: \<open>removePlayer\<close>\<close>

text \<open>The two state updates of \<open>removePlayer\<close>, on the pair of roster and round list.\<close>

definition remove_from_round :: "string \<Rightarrow> GameRound \<Rightarrow> GameRound" where
  "remove_from_round x r =
     r\<lparr>rvalues := (rvalues r)(x := None),
       bankerId := (if bankerId r = x then [] else bankerId r)\<rparr>"

definition removePlayer ::
  "string \<Rightarrow> Player list \<times> GameRound list \<Rightarrow> Player list \<times> GameRound list" where
  "removePlayer x st =
     (case st of (players, rounds) \<Rightarrow>
        (filter (\<lambda>p. pid p \<noteq> x) players, map (remove_from_round x) rounds))"

section \<open>Definitions used to state the properties\<close>

text \<open>
  What one round adds to the balance of \<open>k\<close>: the round is skipped when it has no banker,
  else the normalized value of \<open>k\<close> is added, as doubles are added. \<open>contribution\<close> is
  the addend as an integer.
\<close>

definition contribution :: "Player list \<Rightarrow> GameRound \<Rightarrow> string \<Rightarrow> int" where
  "contribution players round k = (if bankerId round = [] then 0 else normalized players round k)"

definition add_round :: "Player list \<Rightarrow> string \<Rightarrow> GameRound \<Rightarrow> jsnum \<Rightarrow> jsnum" where
  "add_round players k round a =
     (if bankerId round = [] then a else jadd a (Fin (normalized players round k)))"

text \<open>
  Every roster player other than the banker has a finite recorded value in the round (a
  missing entry counts as 0).
\<close>

definition finite_round :: "Player list \<Rightarrow> GameRound \<Rightarrow> bool" where
  "finite_round players round =
     list_all (\<lambda>p. pid p = bankerId round \<or> isFinite (value_or_zero (rvalues round) (pid p))) players"

text \<open>
  The exact range. Doubles add without rounding as long as the result has magnitude at most
  \<open>2^53 = 9007199254740992\<close>. \<open>round_volume\<close> adds up the absolute values that the roster
  players other than the banker have in a round, \<open>volume\<close> adds that up over the rounds
  with a banker, and \<open>exact_rounds\<close> says that all these values are finite and their
  volume is at most \<open>2^53\<close>: then no sum the aggregator forms is rounded. A balance is
  \<open>safe\<close> when it is finite of magnitude at most \<open>2^53\<close>, and a \<open>finite_double\<close> when
  it is finite at all (of magnitude at most \<open>max_double\<close>).
\<close>

definition round_volume :: "Player list \<Rightarrow> GameRound \<Rightarrow> int" where
  "round_volume players round =
     (\<Sum>p\<leftarrow>filter (\<lambda>p. pid p \<noteq> bankerId round) players.
        \<bar>finite_or_zero (value_or_zero (rvalues round) (pid p))\<bar>)"

definition volume :: "Player list \<Rightarrow> GameRound list \<Rightarrow> int" where
  "volume players rounds =
     (\<Sum>r\<leftarrow>rounds. if bankerId r = [] then 0 else round_volume players r)"

definition exact_rounds :: "Player list \<Rightarrow> GameRound list \<Rightarrow> bool" where
  "exact_rounds players rounds \<longleftrightarrow>
     list_all (\<lambda>r. bankerId r = [] \<or> finite_round players r) rounds \<and>
     volume players rounds \<le> 9007199254740992"

definition safe :: "jsnum \<Rightarrow> bool" where
  "safe v = (case v of Fin n \<Rightarrow> \<bar>n\<bar> \<le> 9007199254740992 | _ \<Rightarrow> False)"

definition finite_double :: "jsnum \<Rightarrow> bool" where
  "finite_double v = (case v of Fin n \<Rightarrow> \<bar>n\<bar> \<le> max_double | _ \<Rightarrow> False)"

text \<open>
  The debt expander as the specification words it: for a non-banker roster player with a
  finite, non-zero recorded value \<open>v\<close>, one item of amount \<open>|v|\<close>, from the banker to the
  player when \<open>v > 0\<close> and from the player to the banker when \<open>v < 0\<close>; grouped by round in
  round order, and by roster order within a round.
\<close>

definition debt_of :: "nat \<Rightarrow> GameRound \<Rightarrow> Player \<Rightarrow> DebtItem list" where
  "debt_of idx round p =
     (case value_or_zero (rvalues round) (pid p) of
        Fin v \<Rightarrow>
          if v > 0 then [\<lparr>roundIndex = idx + 1, d_bankerId = bankerId round,
                          d_fromId = bankerId round, d_toId = pid p, d_amount = \<bar>v\<bar>\<rparr>]
          else if v < 0 then [\<lparr>roundIndex = idx + 1, d_bankerId = bankerId round,
                               d_fromId = pid p, d_toId = bankerId round, d_amount = \<bar>v\<bar>\<rparr>]
          else []
      | _ \<Rightarrow> [])"

definition round_debts_spec :: "Player list \<Rightarrow> nat \<times> GameRound \<Rightarrow> DebtItem list" where
  "round_debts_spec players ir =
     (case ir of (idx, round) \<Rightarrow>
        if bankerId round = [] then []
        else concat (map (debt_of idx round) (filter (\<lambda>p. pid p \<noteq> bankerId round) players)))"

definition debts_spec :: "Player list \<Rightarrow> GameRound list \<Rightarrow> DebtItem list" where
  "debts_spec players rounds = concat (map (round_debts_spec players) (List.enumerate 0 rounds))"

text \<open>
  Display positions after the round at position \<open>n + 1\<close> is deleted: items of later rounds
  move up by one, the other fields stay.
\<close>

definition renumber :: "nat \<Rightarrow> DebtItem \<Rightarrow> DebtItem" where
  "renumber n d = (if roundIndex d > n then d\<lparr>roundIndex := roundIndex d - 1\<rparr> else d)"

text \<open>
  The amount recorded for \<open>k\<close> in a debtor or creditor list, the sum of a list of entries,
  and what \<open>k\<close> pays and receives in a list of transactions, as integers.
\<close>

definition amt_of :: "string \<Rightarrow> Entry list \<Rightarrow> int" where
  "amt_of k es = (\<Sum>e\<leftarrow>filter (\<lambda>e. e_id e = k) es. finite_or_zero (e_amount e))"

definition total :: "Entry list \<Rightarrow> int" where
  "total es = (\<Sum>e\<leftarrow>es. finite_or_zero (e_amount e))"

definition paid :: "string \<Rightarrow> Transaction list \<Rightarrow> int" where
  "paid k txs = (\<Sum>t\<leftarrow>filter (\<lambda>t. fromId t = k) txs. finite_or_zero (amount t))"

definition received :: "string \<Rightarrow> Transaction list \<Rightarrow> int" where
  "received k txs = (\<Sum>t\<leftarrow>filter (\<lambda>t. toId t = k) txs. finite_or_zero (amount t))"

text \<open>
  A positive finite amount of at most \<open>b\<close>.
\<close>

definition pos_below :: "int \<Rightarrow> jsnum \<Rightarrow> bool" where
  "pos_below b v = (case v of Fin n \<Rightarrow> 0 < n \<and> n \<le> b | _ \<Rightarrow> False)"

text \<open>
  One iteration of the settlement loop on an entry: it leaves the list when the amount
  left in it is 0, else it stays at the head with that amount. \<open>stepped\<close> says what the
  iteration does in integers when \<open>m\<close> is subtracted: the ids stay, the list is no longer
  than before and is the tail when the entry held exactly \<open>m\<close>, the amounts stay positive
  and finite, and in the exact range the sums go down by \<open>m\<close>.
\<close>

definition pay_down :: "jsnum \<Rightarrow> Entry \<Rightarrow> Entry list \<Rightarrow> Entry list" where
  "pay_down amt e es =
     (if jsub (e_amount e) amt = Fin 0 then es else e\<lparr>e_amount := jsub (e_amount e) amt\<rparr> # es)"

definition stepped :: "int \<Rightarrow> Entry \<Rightarrow> Entry list \<Rightarrow> Entry list \<Rightarrow> bool" where
  "stepped m e es es' \<longleftrightarrow>
     e_id ` set es' \<subseteq> insert (e_id e) (e_id ` set es) \<and>
     length es' \<le> Suc (length es) \<and>
     (e_amount e = Fin m \<longrightarrow> es' = es) \<and>
     (\<forall>x\<in>set es'. pos_below max_double (e_amount x)) \<and>
     (list_all (\<lambda>x. pos_below 9007199254740992 (e_amount x)) (e # es) \<longrightarrow>
        list_all (\<lambda>x. pos_below 9007199254740992 (e_amount x)) es' \<and>
        total es' = total (e # es) - m \<and>
        (\<forall>k. amt_of k es' = amt_of k (e # es) - (if e_id e = k then m else 0)))"

text \<open>
  What the loop guarantees for its output \<open>txs\<close> on positive finite entries: nothing when
  a side is empty, fewer transactions than entries, positive finite amounts between a
  debtor and a creditor; and in the exact range every entry of the side that owes no more
  than the other is paid in full.
\<close>

definition settled :: "Entry list \<Rightarrow> Entry list \<Rightarrow> Transaction list \<Rightarrow> bool" where
  "settled ds cs txs \<longleftrightarrow>
     (ds = [] \<or> cs = [] \<longrightarrow> txs = []) \<and>
     (ds \<noteq> [] \<and> cs \<noteq> [] \<longrightarrow> length txs + 1 \<le> length ds + length cs) \<and>
     (\<forall>t\<in>set txs. pos_below max_double (amount t) \<and>
                   fromId t \<in> e_id ` set ds \<and> toId t \<in> e_id ` set cs) \<and>
     (list_all (\<lambda>e. pos_below 9007199254740992 (e_amount e)) (ds @ cs) \<longrightarrow>
        (\<forall>t\<in>set txs. pos_below 9007199254740992 (amount t)) \<and>
        (total ds \<le> total cs \<longrightarrow> (\<forall>k. paid k txs = amt_of k ds)) \<and>
        (total cs \<le> total ds \<longrightarrow> (\<forall>k. received k txs = amt_of k cs)))"


subsection \<open>Example inputs\<close>

text \<open>
  Three players; the round of the specification's scenario; a round whose banker is not on
  the roster; a round with an infinite entry; a round with no banker; rounds with the
  entries 1 and \<open>2^53\<close>, where doubles start to round; a round with the entry \<open>2^1023\<close>,
  which overflows when it is added to itself.
\<close>

definition ex_players :: "Player list" where
  "ex_players = [\<lparr>pid = ''a'', pname = ''A''\<rparr>, \<lparr>pid = ''b'', pname = ''B''\<rparr>,
                 \<lparr>pid = ''c'', pname = ''C''\<rparr>]"

definition ex_round1 :: GameRound where
  "ex_round1 = \<lparr>rid = ''r1'', bankerId = ''a'',
                 rvalues = [''b'' \<mapsto> Fin 50, ''c'' \<mapsto> Fin (- 20)]\<rparr>"

definition ex_round_stale :: GameRound where
  "ex_round_stale = \<lparr>rid = ''r2'', bankerId = ''z'', rvalues = [''a'' \<mapsto> Fin 5]\<rparr>"

definition ex_round_inf :: GameRound where
  "ex_round_inf = \<lparr>rid = ''r3'', bankerId = ''a'',
                    rvalues = [''b'' \<mapsto> PosInf, ''c'' \<mapsto> Fin 10]\<rparr>"

definition ex_round_open :: GameRound where
  "ex_round_open = \<lparr>rid = ''r4'', bankerId = [], rvalues = [''b'' \<mapsto> Fin 7]\<rparr>"

definition ex_round_one :: GameRound where
  "ex_round_one = \<lparr>rid = ''r5'', bankerId = ''a'', rvalues = [''b'' \<mapsto> Fin 1]\<rparr>"

definition ex_round_two53 :: GameRound where
  "ex_round_two53 = \<lparr>rid = ''r6'', bankerId = ''a'',
                      rvalues = [''b'' \<mapsto> Fin 9007199254740992]\<rparr>"

definition ex_round_mixed :: GameRound where
  "ex_round_mixed = \<lparr>rid = ''r7'', bankerId = ''a'',
                      rvalues = [''b'' \<mapsto> Fin 9007199254740992, ''c'' \<mapsto> Fin 1]\<rparr>"

definition ex_round_huge :: GameRound where
  "ex_round_huge = \<lparr>rid = ''r8'', bankerId = ''a'', rvalues = [''b'' \<mapsto> Fin (2 ^ 1023)]\<rparr>"

section \<open>Rounding\<close>

text \<open>
  The significand \<open>a div 2 ^ shift_of a\<close> has 53 bits; rounding is the identity up to
  \<open>2^53\<close>, keeps the sign, is idempotent, and stays finite on finite magnitudes.
\<close>

declare shift_of.simps [simp del]

lemma shift_small: "a < 9007199254740992 \<Longrightarrow> shift_of a = 0"
  by (simp add: shift_of.simps)

lemma shift_big: "9007199254740992 \<le> a \<Longrightarrow> shift_of a = Suc (shift_of (a div 2))"
  by (subst shift_of.simps) simp

lemma div_pow_Suc: "(a::int) div 2 ^ Suc e = (a div 2) div 2 ^ e"
  by (simp add: zdiv_zmult2_eq)

lemma shift_div: "a div 2 ^ shift_of a < 9007199254740992"
proof (induction a rule: shift_of.induct)
  case (1 a)
  show ?case
  proof (cases "a < 9007199254740992")
    case True
    then show ?thesis by (simp add: shift_small)
  next
    case False
    with 1 have "(a div 2) div 2 ^ shift_of (a div 2) < 9007199254740992" by simp
    with False show ?thesis by (simp add: shift_big zdiv_zmult2_eq)
  qed
qed

lemma shift_low: "9007199254740992 \<le> a \<Longrightarrow> 4503599627370496 \<le> a div 2 ^ shift_of a"
proof (induction a rule: shift_of.induct)
  case (1 a)
  show ?case
  proof (cases "9007199254740992 \<le> a div 2")
    case True
    with 1 have "4503599627370496 \<le> (a div 2) div 2 ^ shift_of (a div 2)" by simp
    with 1(2) show ?thesis by (simp add: shift_big zdiv_zmult2_eq)
  next
    case False
    then have "shift_of (a div 2) = 0" by (simp add: shift_small)
    with 1(2) show ?thesis by (simp add: shift_big)
  qed
qed

lemma shift_unique:
  "a div 2 ^ e < 9007199254740992 \<Longrightarrow> (0 < e \<longrightarrow> 4503599627370496 \<le> a div 2 ^ e) \<Longrightarrow>
   shift_of a = e"
proof (induction e arbitrary: a)
  case 0
  then show ?case by (simp add: shift_small)
next
  case (Suc e)
  from Suc.prems have q: "4503599627370496 \<le> (a div 2) div 2 ^ e" "(a div 2) div 2 ^ e < 9007199254740992"
    by (simp_all add: zdiv_zmult2_eq)
  have "(a div 2) div 2 ^ e \<le> a div 2"
  proof -
    have "1 * ((a div 2) div 2 ^ e) \<le> 2 ^ e * ((a div 2) div 2 ^ e)"
      using q(1) by (intro mult_right_mono) auto
    moreover have "2 ^ e * ((a div 2) div 2 ^ e) + (a div 2) mod 2 ^ e = a div 2"
      by (rule mult_div_mod_eq)
    moreover have "0 \<le> (a div 2) mod (2 ^ e :: int)" by simp
    ultimately show ?thesis by linarith
  qed
  with q(1) have big: "9007199254740992 \<le> a" by simp
  from q have "shift_of (a div 2) = e" by (intro Suc.IH) auto
  with big show ?case by (simp add: shift_big)
qed

lemma shift_le: "a div 2 ^ k < 9007199254740992 \<Longrightarrow> shift_of a \<le> k"
proof (induction k arbitrary: a)
  case 0
  then show ?case by (simp add: shift_small)
next
  case (Suc k)
  show ?case
  proof (cases "a < 9007199254740992")
    case True
    then show ?thesis by (simp add: shift_small)
  next
    case False
    from Suc.prems have "(a div 2) div 2 ^ k < 9007199254740992" by (simp add: zdiv_zmult2_eq)
    from Suc.IH [OF this] False show ?thesis by (simp add: shift_big)
  qed
qed

lemma round_even_small: "a < 9007199254740992 \<Longrightarrow> round_even a = a"
  by (simp add: round_even_def shift_small)

lemma shift_two53: "shift_of 9007199254740992 = 1"
  by (rule shift_unique) simp_all

lemma round_even_two53: "round_even 9007199254740992 = 9007199254740992"
  by (simp add: round_even_def shift_two53)

lemma round_even_exact: "a \<le> 9007199254740992 \<Longrightarrow> round_even a = a"
  using round_even_small [of a] round_even_two53 by (cases "a = 9007199254740992") auto

lemma round_even_cases:
  "round_even a = (a div 2 ^ shift_of a) * 2 ^ shift_of a \<or>
   round_even a = (a div 2 ^ shift_of a + 1) * 2 ^ shift_of a"
  by (simp add: round_even_def Let_def)

lemma round_even_pos: "0 < a \<Longrightarrow> 0 < round_even a"
proof (cases "a < 9007199254740992")
  case True
  assume "0 < a"
  with True show ?thesis by (simp add: round_even_small)
next
  case False
  then have "4503599627370496 \<le> a div 2 ^ shift_of a" by (intro shift_low) simp
  then have "0 < (a div 2 ^ shift_of a) * 2 ^ shift_of a" "0 < (a div 2 ^ shift_of a + 1) * 2 ^ shift_of a"
    by (simp_all add: zero_less_mult_iff)
  with round_even_cases [of a] show ?thesis by auto
qed

lemma round_even_idem: "round_even (round_even a) = round_even a"
proof (cases "a < 9007199254740992")
  case True
  then show ?thesis by (simp add: round_even_small)
next
  case False
  define e where "e = shift_of a"
  define q where "q = a div 2 ^ e"
  from False have lo: "4503599627370496 \<le> q" unfolding q_def e_def by (intro shift_low) simp
  have hi: "q < 9007199254740992" unfolding q_def e_def by (rule shift_div)
  have stay: "round_even (m * 2 ^ e) = m * 2 ^ e"
    if m: "4503599627370496 \<le> m" "m \<le> 9007199254740992" for m
  proof (cases "m = 9007199254740992")
    case False
    with m have "shift_of (m * 2 ^ e) = e" by (intro shift_unique) auto
    then show ?thesis by (simp add: round_even_def)
  next
    case True
    have v: "m * 2 ^ e = 4503599627370496 * 2 ^ Suc e" by (simp add: True)
    have "shift_of (4503599627370496 * 2 ^ Suc e) = Suc e"
      by (rule shift_unique) (simp_all del: power_Suc)
    then have "round_even (4503599627370496 * 2 ^ Suc e) = 4503599627370496 * 2 ^ Suc e"
      by (simp add: round_even_def del: power_Suc)
    with v show ?thesis by simp
  qed
  from round_even_cases [of a] have "round_even a = q * 2 ^ e \<or> round_even a = (q + 1) * 2 ^ e"
    by (simp add: q_def e_def)
  then show ?thesis
  proof
    assume "round_even a = q * 2 ^ e"
    with stay [of q] lo hi show ?thesis by simp
  next
    assume "round_even a = (q + 1) * 2 ^ e"
    with stay [of "q + 1"] lo hi show ?thesis by simp
  qed
qed

lemma round_even_max:
  assumes "0 \<le> a" "a \<le> max_double"
  shows "round_even a \<le> max_double"
proof (cases "a < 9007199254740992")
  case True
  with assms show ?thesis by (simp add: round_even_small)
next
  case False
  define e where "e = shift_of a"
  define q where "q = a div 2 ^ e"
  have hi: "q < 9007199254740992" unfolding q_def e_def by (rule shift_div)
  have a_eq: "a = q * 2 ^ e + a mod 2 ^ e" by (simp add: q_def div_mult_mod_eq)
  from False have lo: "4503599627370496 \<le> q" unfolding q_def e_def by (intro shift_low) simp
  have "a div 2 ^ 971 \<le> max_double div 2 ^ 971" using assms(2) by (rule zdiv_mono1) simp
  also have "max_double div 2 ^ 971 = 9007199254740991" by (simp add: max_double_def)
  finally have top: "a div 2 ^ 971 \<le> 9007199254740991" .
  then have e_le: "e \<le> 971" unfolding e_def by (intro shift_le) simp
  from round_even_cases [of a] have up: "round_even a \<le> (q + 1) * 2 ^ e"
    by (auto simp: q_def e_def)
  show ?thesis
  proof (cases "e = 971")
    case True
    with top have q_le: "q \<le> 9007199254740991" by (simp add: q_def)
    show ?thesis
    proof (cases "q = 9007199254740991")
      case qmax: True
      from a_eq assms(2) have "a mod 2 ^ e \<le> 0"
        unfolding qmax True max_double_def by linarith
      moreover have "0 \<le> a mod (2 ^ e :: int)" by simp
      ultimately have r: "a mod 2 ^ e = 0" by linarith
      have "round_even a = q * 2 ^ e"
        unfolding round_even_def Let_def e_def [symmetric] q_def [symmetric] using r by simp
      then have "round_even a = 9007199254740991 * 2 ^ 971" unfolding qmax True .
      then show ?thesis by (simp add: max_double_def)
    next
      case False
      with q_le have "q + 1 \<le> 9007199254740991" by simp
      then have "(q + 1) * 2 ^ 971 \<le> 9007199254740991 * 2 ^ 971"
        by (intro mult_right_mono) auto
      with up True show ?thesis by (simp add: max_double_def)
    qed
  next
    case False
    with e_le have "e \<le> 970" by simp
    then have "(2::int) ^ e \<le> 2 ^ 970" by (intro power_increasing) auto
    moreover from hi have "q + 1 \<le> 9007199254740992" by simp
    moreover have "0 \<le> q + 1" using lo by simp
    ultimately have "(q + 1) * 2 ^ e \<le> 9007199254740992 * 2 ^ 970"
      by (intro mult_mono) auto
    also have "\<dots> \<le> max_double" by (simp add: max_double_def)
    finally show ?thesis using up by simp
  qed
qed

lemma two53_lt_overflow: "(9007199254740992::int) < 2 ^ 1024"
  by simp

lemma max_double_lt_overflow: "max_double < 2 ^ 1024"
  by (simp add: max_double_def)


lemma fl_exact: "\<bar>n\<bar> \<le> 9007199254740992 \<Longrightarrow> fl n = Fin n"
proof -
  assume b: "\<bar>n\<bar> \<le> 9007199254740992"
  then have "round_even \<bar>n\<bar> = \<bar>n\<bar>" by (rule round_even_exact)
  moreover from b have "\<not> 2 ^ 1024 \<le> \<bar>n\<bar>" using two53_lt_overflow by linarith
  ultimately show ?thesis by (simp add: fl_def Let_def del: abs_le_iff)
qed

lemma fl_zero [simp]: "fl 0 = Fin 0"
  by (simp add: fl_exact)

lemma round_even_nonneg: "0 \<le> a \<Longrightarrow> 0 \<le> round_even a"
  using round_even_pos [of a] round_even_small [of 0] by (cases "a = 0") auto

lemma fl_unfold:
  "fl n = (if 2 ^ 1024 \<le> round_even \<bar>n\<bar> then (if 0 < n then PosInf else NegInf)
           else Fin (if 0 \<le> n then round_even \<bar>n\<bar> else - round_even \<bar>n\<bar>))"
  by (simp only: fl_def Let_def)

lemma fl_idem: "fl n = Fin m \<Longrightarrow> fl m = Fin m"
proof -
  assume f: "fl n = Fin m"
  define v where "v = round_even \<bar>n\<bar>"
  have v0: "0 \<le> v" unfolding v_def by (rule round_even_nonneg) simp
  from f have small: "\<not> 2 ^ 1024 \<le> v" and m: "m = (if 0 \<le> n then v else - v)"
    unfolding fl_unfold v_def [symmetric] by (simp_all split: if_splits)
  from m v0 have abs_m: "\<bar>m\<bar> = v" by (simp split: if_splits)
  have rv: "round_even v = v" unfolding v_def by (rule round_even_idem)
  have "fl m = (if 2 ^ 1024 \<le> v then (if 0 < m then PosInf else NegInf)
                else Fin (if 0 \<le> m then v else - v))"
    unfolding fl_unfold abs_m rv ..
  also have "\<dots> = Fin (if 0 \<le> m then v else - v)" using small by (simp only: if_False)
  also have "(if 0 \<le> m then v else - v) = m" using m v0 by (simp split: if_splits)
  finally show ?thesis .
qed

lemma jadd_settled: "jadd (jadd a b) (Fin 0) = jadd a b"
proof (cases "\<exists>x y. a = Fin x \<and> b = Fin y")
  case True
  then obtain x y where xy: "a = Fin x" "b = Fin y" by blast
  show ?thesis
  proof (cases "fl (x + y)")
    case (Fin m)
    with fl_idem [OF Fin] show ?thesis by (simp add: xy)
  qed (simp_all add: xy)
next
  case False
  then show ?thesis by (cases a; cases b) simp_all
qed


lemma fl_eq_zero_iff: "fl n = Fin 0 \<longleftrightarrow> n = 0"
proof
  assume z: "fl n = Fin 0"
  define v where "v = round_even \<bar>n\<bar>"
  have vpos: "n \<noteq> 0 \<Longrightarrow> 0 < v" unfolding v_def by (rule round_even_pos) simp
  from z have "(if 0 \<le> n then v else - v) = 0"
    unfolding fl_unfold v_def [symmetric] by (simp split: if_splits)
  with vpos show "n = 0" by (cases "n = 0") (auto split: if_splits)
qed simp

lemma fl_pos_fin:
  assumes "0 < n" "n \<le> max_double"
  shows "\<exists>m. fl n = Fin m \<and> 0 < m \<and> m \<le> max_double"
proof -
  define v where "v = round_even \<bar>n\<bar>"
  from assms have "\<bar>n\<bar> = n" by simp
  with assms have "v \<le> max_double" "0 < v"
    unfolding v_def by (simp_all add: round_even_max round_even_pos)
  moreover from this max_double_lt_overflow have "\<not> 2 ^ 1024 \<le> v" by linarith
  moreover have "fl n = (if 2 ^ 1024 \<le> v then (if 0 < n then PosInf else NegInf)
                else Fin (if 0 \<le> n then v else - v))"
    unfolding fl_unfold v_def ..
  ultimately show ?thesis using assms(1) by (simp only: if_False) auto
qed

lemma fl_tie_even: "fl 9007199254740993 = Fin 9007199254740992"
proof -
  have "shift_of 9007199254740993 = 1" by (rule shift_unique) simp_all
  then show ?thesis by (simp add: fl_def round_even_def)
qed

lemma fl_overflow: "fl (2 ^ 1024) = PosInf"
proof -
  have "shift_of (2 ^ 1024) = 972" by (rule shift_unique) simp_all
  then show ?thesis by (simp add: fl_def round_even_def)
qed

lemma fl_neg: "fl (- n) = jneg (fl n)"
proof -
  define v where "v = round_even \<bar>n\<bar>"
  have vpos: "n \<noteq> 0 \<Longrightarrow> 0 < v" unfolding v_def by (rule round_even_pos) simp
  have a: "fl n = (if 2 ^ 1024 \<le> v then (if 0 < n then PosInf else NegInf)
                else Fin (if 0 \<le> n then v else - v))"
    unfolding fl_unfold v_def ..
  have "\<bar>- n\<bar> = \<bar>n\<bar>" by simp
  then have b: "fl (- n) = (if 2 ^ 1024 \<le> v then (if 0 < - n then PosInf else NegInf)
                else Fin (if 0 \<le> - n then v else - v))"
    unfolding fl_unfold v_def by (simp only:)
  show ?thesis
  proof (cases "n = 0")
    case True
    then show ?thesis by simp
  next
    case False
    with vpos have "0 < v" by simp
    with False show ?thesis unfolding a b by (cases "0 < n") auto
  qed
qed

lemma fl_two53_plus2: "fl 9007199254740994 = Fin 9007199254740994"
proof -
  have "shift_of 9007199254740994 = 1" by (rule shift_unique) simp_all
  then show ?thesis by (simp add: fl_def round_even_def)
qed

lemma fl_pow1023: "fl (2 ^ 1023) = Fin (2 ^ 1023)"
proof -
  have "shift_of (2 ^ 1023) = 971" by (rule shift_unique) simp_all
  then show ?thesis by (simp add: fl_def round_even_def)
qed

section \<open>The balance aggregator, key by key\<close>

lemma map_of_init_fold:
  "map_of (fold (\<lambda>p acc. AList.update (pid p) (Fin 0) acc) ps acc) k =
     (if k \<in> pid ` set ps then Some (Fin 0) else map_of acc k)"
  by (induction ps arbitrary: acc) (auto simp: update_conv')

lemma distinct_init_fold:
  "distinct (map fst acc) \<Longrightarrow>
   distinct (map fst (fold (\<lambda>p acc. AList.update (pid p) (Fin 0) acc) ps acc))"
  by (induction ps arbitrary: acc) (auto simp: distinct_update)

lemma keys_init_fold:
  "fst ` set (fold (\<lambda>p acc. AList.update (pid p) (Fin 0) acc) ps acc) = pid ` set ps \<union> fst ` set acc"
  by (induction ps arbitrary: acc) (auto simp: dom_update)

lemma totals_round_keys: "map fst (totals_round ps r acc) = map fst acc"
  by (auto simp: totals_round_def)

lemma map_of_totals_round:
  "map_of (totals_round ps r acc) k = map_option (add_round ps k r) (map_of acc k)"
  by (induction acc) (auto simp: totals_round_def add_round_def)

lemma fold_totals_round_keys: "map fst (fold (totals_round ps) rs acc) = map fst acc"
  by (induction rs arbitrary: acc) (auto simp: totals_round_keys)

lemma map_of_fold_totals_round:
  "map_of (fold (totals_round ps) rs acc) k = map_option (fold (add_round ps k) rs) (map_of acc k)"
proof (induction rs arbitrary: acc)
  case Nil
  show ?case by (simp add: option.map_ident)
next
  case (Cons r rs)
  show ?case
    by (simp add: Cons.IH map_of_totals_round option.map_comp comp_def)
qed

lemma map_of_totals:
  "map_of (totals ps rs) k =
     (if k \<in> pid ` set ps then Some (fold (add_round ps k) rs (Fin 0)) else None)"
  by (simp add: totals_def map_of_fold_totals_round map_of_init_fold)

lemma balance_totals:
  "balance (totals ps rs) k = (if k \<in> pid ` set ps then fold (add_round ps k) rs (Fin 0) else Fin 0)"
  by (simp add: balance_def map_of_totals)

lemma totals_keys: "fst ` set (totals ps rs) = pid ` set ps"
proof -
  have "set (map fst (totals ps rs)) = pid ` set ps"
    unfolding totals_def fold_totals_round_keys by (simp add: keys_init_fold)
  then show ?thesis by simp
qed

lemma distinct_totals: "distinct (map fst (totals ps rs))"
  unfolding totals_def fold_totals_round_keys by (rule distinct_init_fold) simp

lemma init_fold_keys_distinct:
  "distinct (map pid ps) \<Longrightarrow> pid ` set ps \<inter> fst ` set acc = {} \<Longrightarrow>
   map fst (fold (\<lambda>p acc. AList.update (pid p) (Fin 0) acc) ps acc) = map fst acc @ map pid ps"
proof (induction ps arbitrary: acc)
  case Nil
  show ?case by simp
next
  case (Cons p ps)
  from Cons.prems have new: "pid p \<notin> fst ` set acc" by auto
  then have keys: "map fst (AList.update (pid p) (Fin 0) acc) = map fst acc @ [pid p]"
    by (simp add: update_keys)
  from Cons.prems have "distinct (map pid ps)"
    and "pid ` set ps \<inter> fst ` set (AList.update (pid p) (Fin 0) acc) = {}"
    by (auto simp: dom_update)
  from Cons.IH [OF this] keys show ?case by simp
qed

lemma totals_keys_roster: "distinct (map pid ps) \<Longrightarrow> map fst (totals ps rs) = map pid ps"
  unfolding totals_def fold_totals_round_keys
  using init_fold_keys_distinct [of ps "[]"] by simp

lemma values_by_key:
  "distinct (map fst t) \<Longrightarrow> map snd t = map (balance t) (map fst t)"
proof (induction t)
  case Nil
  show ?case by simp
next
  case (Cons x t)
  obtain k a where x: "x = (k, a)" by (cases x)
  from Cons.prems x have "k \<notin> fst ` set t" by auto
  then have "map (balance ((k, a) # t)) (map fst t) = map (balance t) (map fst t)"
    by (intro map_cong refl) (auto simp: balance_def)
  with Cons x show ?case by (simp add: balance_def)
qed


lemma jadd_exact: "\<bar>a + b\<bar> \<le> 9007199254740992 \<Longrightarrow> jadd (Fin a) (Fin b) = Fin (a + b)"
  by (simp add: fl_exact del: abs_le_iff)

lemma fold_jadd_exact:
  assumes "\<forall>p\<in>set ps. isFinite (f p)"
    and "\<bar>a\<bar> + (\<Sum>p\<leftarrow>ps. \<bar>finite_or_zero (f p)\<bar>) \<le> 9007199254740992"
  shows "fold (\<lambda>p s. jadd s (f p)) ps (Fin a) = Fin (a + (\<Sum>p\<leftarrow>ps. finite_or_zero (f p)))"
  using assms
proof (induction ps arbitrary: a)
  case Nil
  show ?case by simp
next
  case (Cons p ps)
  from Cons.prems obtain v where v: "f p = Fin v" by (cases "f p") auto
  from Cons.prems(1) have fin: "\<forall>q\<in>set ps. isFinite (f q)" by simp
  have nn: "0 \<le> (\<Sum>p\<leftarrow>ps. \<bar>finite_or_zero (f p)\<bar>)" by (rule sum_list_nonneg) auto
  from Cons.prems(2) nn have step: "\<bar>a + v\<bar> \<le> 9007199254740992" by (simp add: v)
  from Cons.prems(2) have "\<bar>a + v\<bar> + (\<Sum>p\<leftarrow>ps. \<bar>finite_or_zero (f p)\<bar>) \<le> 9007199254740992"
    by (simp add: v)
  from Cons.IH [OF fin this] show ?case by (simp add: v fl_exact [OF step] add.assoc)
qed

lemma sumParticipants_exact:
  assumes "finite_round ps r" "round_volume ps r \<le> 9007199254740992"
  shows "sumParticipants ps r =
     Fin (\<Sum>p\<leftarrow>filter (\<lambda>p. pid p \<noteq> bankerId r) ps. finite_or_zero (value_or_zero (rvalues r) (pid p)))"
  unfolding sumParticipants_def
  using assms by (subst fold_jadd_exact) (auto simp: finite_round_def list_all_iff round_volume_def)

lemma normalized_banker:
  "normalized ps r (bankerId r) = finite_or_zero (jneg (sumParticipants ps r))"
  by (simp add: normalized_def finalValues_def)

lemma normalized_other:
  "k \<noteq> bankerId r \<Longrightarrow> normalized ps r k = finite_or_zero (value_or_zero (rvalues r) k)"
  by (simp add: normalized_def finalValues_def value_or_zero_def split: option.splits)

lemma abs_sum_list_le: "\<bar>\<Sum>x\<leftarrow>xs. f x\<bar> \<le> (\<Sum>x\<leftarrow>xs. \<bar>f x :: int\<bar>)"
  by (induction xs) auto

lemma member_le_abs_sum: "x \<in> set xs \<Longrightarrow> \<bar>f x\<bar> \<le> (\<Sum>x\<leftarrow>xs. \<bar>f x :: int\<bar>)"
proof (induction xs)
  case Nil
  then show ?case by simp
next
  case (Cons y ys)
  have nn: "0 \<le> (\<Sum>x\<leftarrow>ys. \<bar>f x\<bar>)" by (rule sum_list_nonneg) auto
  from Cons nn show ?case by auto
qed

lemma normalized_bound:
  assumes "finite_round ps r" "round_volume ps r \<le> 9007199254740992" "k \<in> pid ` set ps"
  shows "\<bar>normalized ps r k\<bar> \<le> round_volume ps r"
proof (cases "k = bankerId r")
  case True
  then show ?thesis
    by (simp add: normalized_banker sumParticipants_exact [OF assms(1,2)])
       (simp add: round_volume_def abs_sum_list_le)
next
  case False
  with assms(3) obtain p where "p \<in> set (filter (\<lambda>p. pid p \<noteq> bankerId r) ps)" "pid p = k"
    by auto
  from member_le_abs_sum [OF this(1), of "\<lambda>p. finite_or_zero (value_or_zero (rvalues r) (pid p))"] this(2) False
  show ?thesis by (simp add: normalized_other round_volume_def)
qed

lemma contribution_bound:
  assumes "bankerId r = [] \<or> finite_round ps r"
    "(if bankerId r = [] then 0 else round_volume ps r) \<le> 9007199254740992" "k \<in> pid ` set ps"
  shows "\<bar>contribution ps r k\<bar> \<le> (if bankerId r = [] then 0 else round_volume ps r)"
  using assms normalized_bound [of ps r k] by (auto simp: contribution_def)

lemma volume_nonneg: "0 \<le> volume ps rs"
  unfolding volume_def round_volume_def
  by (intro sum_list_nonneg) (auto intro!: sum_list_nonneg)

lemma round_volume_nonneg: "0 \<le> round_volume ps r"
  unfolding round_volume_def by (intro sum_list_nonneg) auto

lemma fold_add_round_exact:
  assumes "list_all (\<lambda>r. bankerId r = [] \<or> finite_round ps r) rs"
    and "\<bar>a\<bar> + volume ps rs \<le> 9007199254740992" and "k \<in> pid ` set ps"
  shows "fold (add_round ps k) rs (Fin a) = Fin (a + (\<Sum>r\<leftarrow>rs. contribution ps r k)) \<and>
         \<bar>a + (\<Sum>r\<leftarrow>rs. contribution ps r k)\<bar> \<le> \<bar>a\<bar> + volume ps rs"
  using assms(1,2)
proof (induction rs arbitrary: a)
  case Nil
  show ?case by (simp add: volume_def)
next
  case (Cons r rs)
  let ?v = "if bankerId r = [] then 0 else round_volume ps r"
  have vol: "volume ps (r # rs) = ?v + volume ps rs" by (simp add: volume_def)
  have v0: "0 \<le> ?v" using round_volume_nonneg by simp
  from Cons.prems(2) vol volume_nonneg [of ps rs] v0 have vb: "?v \<le> 9007199254740992" by linarith
  from Cons.prems(1) have fr: "bankerId r = [] \<or> finite_round ps r" by simp
  from contribution_bound [OF fr vb assms(3)] have cb: "\<bar>contribution ps r k\<bar> \<le> ?v" .
  with Cons.prems(2) vol volume_nonneg [of ps rs] have step: "\<bar>a + contribution ps r k\<bar> \<le> 9007199254740992"
    by linarith
  have one: "add_round ps k r (Fin a) = Fin (a + contribution ps r k)"
    using fl_exact [OF step] by (auto simp: add_round_def contribution_def)
  from cb Cons.prems(2) vol have "\<bar>a + contribution ps r k\<bar> + volume ps rs \<le> 9007199254740992"
    by linarith
  with Cons.prems(1) have
    "fold (add_round ps k) rs (Fin (a + contribution ps r k)) =
       Fin (a + contribution ps r k + (\<Sum>r\<leftarrow>rs. contribution ps r k)) \<and>
     \<bar>a + contribution ps r k + (\<Sum>r\<leftarrow>rs. contribution ps r k)\<bar>
       \<le> \<bar>a + contribution ps r k\<bar> + volume ps rs"
    by (intro Cons.IH) simp_all
  then have f: "fold (add_round ps k) rs (Fin (a + contribution ps r k)) =
       Fin (a + (contribution ps r k + (\<Sum>r\<leftarrow>rs. contribution ps r k)))"
    and g: "\<bar>a + (contribution ps r k + (\<Sum>r\<leftarrow>rs. contribution ps r k))\<bar>
       \<le> \<bar>a + contribution ps r k\<bar> + volume ps rs"
    by (simp_all add: add.assoc)
  from g cb have "\<bar>a + (contribution ps r k + (\<Sum>r\<leftarrow>rs. contribution ps r k))\<bar>
       \<le> \<bar>a\<bar> + (?v + volume ps rs)" by linarith
  with one f show ?case by (simp only: fold_Cons comp_apply sum_list.Cons list.map vol)
qed

lemma map_of_totals_exact:
  assumes "exact_rounds ps rs" "k \<in> pid ` set ps"
  shows "map_of (totals ps rs) k = Some (Fin (\<Sum>r\<leftarrow>rs. contribution ps r k))"
    and "\<bar>\<Sum>r\<leftarrow>rs. contribution ps r k\<bar> \<le> 9007199254740992"
proof -
  from assms(1) have a: "list_all (\<lambda>r. bankerId r = [] \<or> finite_round ps r) rs"
    and b: "\<bar>0\<bar> + volume ps rs \<le> 9007199254740992" by (simp_all add: exact_rounds_def)
  from fold_add_round_exact [OF a b assms(2)]
  have f: "fold (add_round ps k) rs (Fin 0) = Fin (\<Sum>r\<leftarrow>rs. contribution ps r k)"
    and c: "\<bar>\<Sum>r\<leftarrow>rs. contribution ps r k\<bar> \<le> volume ps rs" by simp_all
  from f assms(2) show "map_of (totals ps rs) k = Some (Fin (\<Sum>r\<leftarrow>rs. contribution ps r k))"
    by (simp add: map_of_totals)
  from c b show "\<bar>\<Sum>r\<leftarrow>rs. contribution ps r k\<bar> \<le> 9007199254740992" by simp
qed

lemma balance_totals_exact:
  assumes "exact_rounds ps rs" "k \<in> pid ` set ps"
  shows "balance (totals ps rs) k = Fin (\<Sum>r\<leftarrow>rs. contribution ps r k)"
  by (simp add: balance_def map_of_totals_exact(1) [OF assms])

lemma totals_safe:
  assumes "exact_rounds ps rs"
  shows "list_all (\<lambda>(k, v). safe v) (totals ps rs)"
proof -
  have "safe v" if kv: "(k, v) \<in> set (totals ps rs)" for k v
  proof -
    from kv have k: "k \<in> pid ` set ps" using totals_keys [of ps rs] by force
    from kv distinct_totals [of ps rs] have "map_of (totals ps rs) k = Some v" by simp
    with map_of_totals_exact [OF assms k] show ?thesis by (simp add: safe_def del: abs_le_iff)
  qed
  then show ?thesis by (auto simp: list_all_iff)
qed

lemma sum_list_single_out:
  "distinct (map pid ps) \<Longrightarrow> b \<in> pid ` set ps \<Longrightarrow>
   (\<Sum>p\<leftarrow>ps. if pid p = b then c else g p) = (c::int) + (\<Sum>p\<leftarrow>filter (\<lambda>p. pid p \<noteq> b) ps. g p)"
proof (induction ps)
  case Nil
  then show ?case by simp
next
  case (Cons p ps)
  show ?case
  proof (cases "pid p = b")
    case True
    with Cons.prems have "b \<notin> pid ` set ps" by auto
    then have "filter (\<lambda>p. pid p \<noteq> b) ps = ps" by (auto simp: filter_id_conv)
    moreover from \<open>b \<notin> pid ` set ps\<close> have "(\<Sum>p\<leftarrow>ps. if pid p = b then c else g p) = (\<Sum>p\<leftarrow>ps. g p)"
      by (intro arg_cong [where f = sum_list] map_cong) auto
    ultimately show ?thesis using True by simp
  next
    case False
    with Cons.prems have "distinct (map pid ps)" "b \<in> pid ` set ps" by auto
    from Cons.IH [OF this] show ?thesis using False by simp
  qed
qed

lemma normalized_zero_sum:
  assumes "distinct (map pid ps)" "bankerId r \<in> pid ` set ps" "finite_round ps r"
    "round_volume ps r \<le> 9007199254740992"
  shows "(\<Sum>p\<leftarrow>ps. normalized ps r (pid p)) = 0"
proof -
  let ?g = "\<lambda>p. finite_or_zero (value_or_zero (rvalues r) (pid p))"
  let ?S = "\<Sum>p\<leftarrow>filter (\<lambda>p. pid p \<noteq> bankerId r) ps. ?g p"
  have "(\<Sum>p\<leftarrow>ps. normalized ps r (pid p)) = (\<Sum>p\<leftarrow>ps. if pid p = bankerId r then - ?S else ?g p)"
    by (intro arg_cong [where f = sum_list] map_cong refl)
       (simp add: normalized_banker normalized_other sumParticipants_exact [OF assms(3,4)])
  also have "\<dots> = - ?S + ?S" by (rule sum_list_single_out [OF assms(1,2)])
  finally show ?thesis by simp
qed

lemma contributions_sum_zero:
  assumes "distinct (map pid ps)"
    and "\<forall>r\<in>set rs. bankerId r = [] \<or> bankerId r \<in> pid ` set ps"
    and "exact_rounds ps rs"
  shows "(\<Sum>p\<leftarrow>ps. \<Sum>r\<leftarrow>rs. contribution ps r (pid p)) = 0"
  using assms(2,3)
proof (induction rs)
  case Nil
  show ?case by simp
next
  case (Cons r rs)
  from Cons.prems(2) have fr: "bankerId r = [] \<or> finite_round ps r"
    and vol: "(if bankerId r = [] then 0 else round_volume ps r) + volume ps rs \<le> 9007199254740992"
    and rest: "list_all (\<lambda>r. bankerId r = [] \<or> finite_round ps r) rs"
    by (simp_all add: exact_rounds_def volume_def)
  from vol volume_nonneg [of ps rs] round_volume_nonneg [of ps r]
  have v1: "bankerId r \<noteq> [] \<longrightarrow> round_volume ps r \<le> 9007199254740992"
    and v2: "volume ps rs \<le> 9007199254740992"
    by (auto split: if_splits)
  have "(\<Sum>p\<leftarrow>ps. contribution ps r (pid p)) = 0"
  proof (cases "bankerId r = []")
    case True
    then show ?thesis by (simp add: contribution_def)
  next
    case False
    with Cons.prems(1) fr v1 have "bankerId r \<in> pid ` set ps" "finite_round ps r"
      "round_volume ps r \<le> 9007199254740992" by auto
    from normalized_zero_sum [OF assms(1) this] False show ?thesis
      by (simp add: contribution_def)
  qed
  moreover from Cons.prems(1) rest v2 have "(\<Sum>p\<leftarrow>ps. \<Sum>r\<leftarrow>rs. contribution ps r (pid p)) = 0"
    by (intro Cons.IH) (simp_all add: exact_rounds_def)
  ultimately show ?case by (simp add: sum_list_addf)
qed

lemma balances_sum_zero:
  assumes "distinct (map pid ps)"
    and "\<forall>r\<in>set rs. bankerId r = [] \<or> bankerId r \<in> pid ` set ps"
    and "exact_rounds ps rs"
  shows "(\<Sum>p\<leftarrow>ps. finite_or_zero (balance (totals ps rs) (pid p))) = 0"
proof -
  have "(\<Sum>p\<leftarrow>ps. finite_or_zero (balance (totals ps rs) (pid p))) =
        (\<Sum>p\<leftarrow>ps. \<Sum>r\<leftarrow>rs. contribution ps r (pid p))"
    by (intro arg_cong [where f = sum_list] map_cong refl)
       (simp add: balance_totals_exact [OF assms(3)])
  with contributions_sum_zero [OF assms] show ?thesis by simp
qed

lemma totals_sum_roster:
  assumes "distinct (map pid ps)"
  shows "(\<Sum>(k, v)\<leftarrow>totals ps rs. finite_or_zero v) =
         (\<Sum>p\<leftarrow>ps. finite_or_zero (balance (totals ps rs) (pid p)))"
proof -
  have "map snd (totals ps rs) = map (balance (totals ps rs)) (map fst (totals ps rs))"
    by (rule values_by_key) (rule distinct_totals)
  then have "map snd (totals ps rs) = map (\<lambda>p. balance (totals ps rs) (pid p)) ps"
    by (simp add: totals_keys_roster [OF assms] comp_def)
  then have "map finite_or_zero (map snd (totals ps rs)) =
             map finite_or_zero (map (\<lambda>p. balance (totals ps rs) (pid p)) ps)"
    by (rule arg_cong)
  then have "(\<Sum>x\<leftarrow>totals ps rs. finite_or_zero (snd x)) =
             (\<Sum>p\<leftarrow>ps. finite_or_zero (balance (totals ps rs) (pid p)))"
    by (simp add: comp_def)
  then show ?thesis by (simp only: case_prod_unfold)
qed

lemma totals_sum_zero:
  assumes "distinct (map pid ps)"
    and "\<forall>r\<in>set rs. bankerId r = [] \<or> bankerId r \<in> pid ` set ps"
    and "exact_rounds ps rs"
  shows "(\<Sum>(k, v)\<leftarrow>totals ps rs. finite_or_zero v) = 0"
  by (simp add: totals_sum_roster [OF assms(1)] balances_sum_zero [OF assms])





section \<open>The debt expander\<close>

lemma debt_step_eq:
  "debt_step idx r p items =
     items @ (if pid p = bankerId r then [] else debt_of idx r p)"
  by (simp add: debt_step_def debt_of_def split: jsnum.splits)

lemma fold_debt_step:
  "fold (debt_step idx r) ps items =
     items @ concat (map (debt_of idx r) (filter (\<lambda>p. pid p \<noteq> bankerId r) ps))"
  by (induction ps arbitrary: items) (simp_all add: debt_step_eq)

lemma debts_round_eq: "debts_round ps ir items = items @ round_debts_spec ps ir"
  by (cases ir) (simp add: debts_round_def round_debts_spec_def fold_debt_step)

lemma fold_debts_round:
  "fold (debts_round ps) irs items = items @ concat (map (round_debts_spec ps) irs)"
  by (induction irs arbitrary: items) (simp_all add: debts_round_eq)

lemma debtsByRound_spec: "debtsByRound ps rs = debts_spec ps rs"
  by (simp add: debtsByRound_def debts_spec_def fold_debts_round)

lemma debt_of_index: "d \<in> set (debt_of idx r p) \<Longrightarrow> roundIndex d = Suc idx"
  by (cases "value_or_zero (rvalues r) (pid p)") (auto simp: debt_of_def split: if_splits)

lemma debt_of_Suc:
  "debt_of (Suc idx) r p = map (\<lambda>d. d\<lparr>roundIndex := Suc (roundIndex d)\<rparr>) (debt_of idx r p)"
  by (cases "value_or_zero (rvalues r) (pid p)") (simp_all add: debt_of_def)

lemma round_debts_index:
  "d \<in> set (round_debts_spec ps (idx, r)) \<Longrightarrow> roundIndex d = Suc idx"
  by (auto simp: round_debts_spec_def dest: debt_of_index split: if_splits)

lemma round_debts_Suc:
  "round_debts_spec ps (Suc idx, r) =
     map (\<lambda>d. d\<lparr>roundIndex := Suc (roundIndex d)\<rparr>) (round_debts_spec ps (idx, r))"
proof -
  have "debt_of (Suc idx) r = (\<lambda>p. map (\<lambda>d. d\<lparr>roundIndex := Suc (roundIndex d)\<rparr>) (debt_of idx r p))"
    by (rule ext) (rule debt_of_Suc)
  then show ?thesis by (simp add: round_debts_spec_def map_concat comp_def)
qed

lemma debts_enumerate_index:
  "d \<in> set (concat (map (round_debts_spec ps) (List.enumerate n rs))) \<Longrightarrow>
   n < roundIndex d \<and> roundIndex d \<le> n + length rs"
proof (induction rs arbitrary: n)
  case Nil
  then show ?case by simp
next
  case (Cons r rs)
  from Cons.prems consider "d \<in> set (round_debts_spec ps (n, r))"
    | "d \<in> set (concat (map (round_debts_spec ps) (List.enumerate (Suc n) rs)))"
    by auto
  then show ?case
  proof cases
    case 1
    then show ?thesis by (auto dest: round_debts_index)
  next
    case 2
    from Cons.IH [OF this] show ?thesis by simp
  qed
qed

lemma debts_enumerate_Suc:
  "concat (map (round_debts_spec ps) (List.enumerate (Suc n) rs)) =
     map (\<lambda>d. d\<lparr>roundIndex := Suc (roundIndex d)\<rparr>)
       (concat (map (round_debts_spec ps) (List.enumerate n rs)))"
proof (induction rs arbitrary: n)
  case Nil
  show ?case by simp
next
  case (Cons r rs)
  show ?case by (simp add: Cons.IH round_debts_Suc)
qed

lemma debts_drop_bankerless:
  assumes "bankerId r = []"
  shows "debts_spec ps (rs1 @ rs2) = map (renumber (length rs1)) (debts_spec ps (rs1 @ r # rs2))"
proof -
  let ?D = "\<lambda>n rs. concat (map (round_debts_spec ps) (List.enumerate n rs))"
  have low: "map (renumber (length rs1)) (?D 0 rs1) = ?D 0 rs1"
  proof (rule map_idI)
    fix d assume "d \<in> set (?D 0 rs1)"
    from debts_enumerate_index [OF this] show "renumber (length rs1) d = d"
      by (simp add: renumber_def)
  qed
  have high: "map (renumber (length rs1)) (?D (Suc (length rs1)) rs2) = ?D (length rs1) rs2"
    unfolding debts_enumerate_Suc map_map comp_def
  proof (rule map_idI)
    fix d assume "d \<in> set (?D (length rs1) rs2)"
    from debts_enumerate_index [OF this]
    show "renumber (length rs1) (d\<lparr>roundIndex := Suc (roundIndex d)\<rparr>) = d"
      by (simp add: renumber_def)
  qed
  have mid: "round_debts_spec ps (length rs1, r) = []"
    using assms by (simp add: round_debts_spec_def)
  show ?thesis
    by (simp add: debts_spec_def enumerate_append_eq low high mid)
qed

lemma debts_ids:
  "d \<in> set (debts_spec ps rs) \<Longrightarrow>
   d_bankerId d \<in> bankerId ` set rs \<and> d_bankerId d \<noteq> [] \<and>
   d_fromId d \<in> insert (d_bankerId d) (pid ` set ps) \<and>
   d_toId d \<in> insert (d_bankerId d) (pid ` set ps)"
  by (auto simp: debts_spec_def round_debts_spec_def debt_of_def enumerate_eq_zip
      split: if_splits jsnum.splits dest!: set_zip_rightD)

section \<open>Sorting and the settlement loop\<close>

text \<open>
  On positive finite entries every iteration emits a transaction and removes at least one
  entry, so the loop returns; the proof is by induction on the number of entries left. On
  two NaN entries the loop never returns.
\<close>

lemma mset_insert_by: "mset (insert_by c x ys) = add_mset x (mset ys)"
  by (induction ys) simp_all

lemma mset_js_sort: "mset (js_sort c xs) = mset xs"
  by (induction xs) (simp_all add: js_sort_def mset_insert_by)


lemma set_js_sort: "set (js_sort c xs) = set xs"
  using mset_js_sort [of c xs] by (rule mset_eq_setD)

lemma length_js_sort: "length (js_sort c xs) = length xs"
  using mset_js_sort [of c xs] by (rule mset_eq_length)

lemma js_sort_Nil_iff: "js_sort c xs = [] \<longleftrightarrow> xs = []"
  using length_js_sort [of c xs] by auto





lemma settle_loop_Nil [simp]:
  "settle_loop [] cs acc = Some acc" "settle_loop ds [] acc = Some acc"
  by (simp_all add: settle_loop.simps split: list.splits)

lemma settle_loop_Cons:
  assumes "jlt (Fin 0) (jmin (e_amount d) (e_amount c))"
  shows "settle_loop (d # ds) (c # cs) acc =
           settle_loop (pay_down (jmin (e_amount d) (e_amount c)) d ds)
                       (pay_down (jmin (e_amount d) (e_amount c)) c cs)
                       (acc @ [\<lparr>fromId = e_id d, toId = e_id c,
                                 amount = jmin (e_amount d) (e_amount c)\<rparr>])"
  using assms by (subst settle_loop.simps) (simp add: Let_def pay_down_def)

lemma jmin_Fin: "jmin (Fin x) (Fin y) = Fin (min x y)"
  by (simp add: min_def)

lemma jsub_Fin: "jsub (Fin x) (Fin y) = fl (x - y)"
  by (simp add: jsub_def)

lemma pay_down_eq: "e_amount e = Fin m \<Longrightarrow> pay_down (Fin m) e es = es"
  by (simp add: pay_down_def jsub_Fin)

lemma pay_down_less:
  assumes "e_amount e = Fin x" "0 < m" "m < x" "x \<le> max_double"
  shows "\<exists>z. pay_down (Fin m) e es = e\<lparr>e_amount := Fin z\<rparr> # es \<and> 0 < z \<and> z \<le> max_double \<and>
             (x \<le> 9007199254740992 \<longrightarrow> z = x - m)"
proof -
  from assms have "0 < x - m" "x - m \<le> max_double" by simp_all
  from fl_pos_fin [OF this] obtain z where z: "fl (x - m) = Fin z" "0 < z" "z \<le> max_double"
    by blast
  have "x \<le> 9007199254740992 \<longrightarrow> z = x - m"
  proof
    assume "x \<le> 9007199254740992"
    with assms have "\<bar>x - m\<bar> \<le> 9007199254740992" by simp
    from fl_exact [OF this] z(1) show "z = x - m" by simp
  qed
  with z assms(1) show ?thesis by (intro exI [of _ z]) (simp add: pay_down_def jsub_Fin)
qed

lemma pos_belowD: "pos_below b v \<Longrightarrow> \<exists>n. v = Fin n \<and> 0 < n \<and> n \<le> b"
  by (cases v) (simp_all add: pos_below_def)

lemma pos_below_Fin [simp]: "pos_below b (Fin n) \<longleftrightarrow> 0 < n \<and> n \<le> b"
  by (simp add: pos_below_def)

lemma pos_below_mono: "pos_below b v \<Longrightarrow> b \<le> b' \<Longrightarrow> pos_below b' v"
  by (cases v) (simp_all add: pos_below_def)

lemma total_nonneg: "\<forall>e\<in>set es. pos_below b (e_amount e) \<Longrightarrow> 0 \<le> total es"
  unfolding total_def by (intro sum_list_nonneg) (auto dest!: pos_belowD)

lemma total_pos_empty:
  assumes "\<forall>e\<in>set es. pos_below b (e_amount e)" "total es \<le> 0"
  shows "es = []"
proof (cases es)
  case Nil
  then show ?thesis .
next
  case (Cons x xs)
  with assms(1) have "0 < finite_or_zero (e_amount x)" "0 \<le> total xs"
    by (auto dest!: pos_belowD intro!: total_nonneg [where b = b])
  with assms(2) Cons show ?thesis by (simp add: total_def)
qed

lemma settled_Nil:
  assumes "ds = [] \<or> cs = []"
    "\<forall>e\<in>set ds. pos_below max_double (e_amount e)" "\<forall>e\<in>set cs. pos_below max_double (e_amount e)"
  shows "settled ds cs []"
  using assms(1)
proof
  assume "ds = []"
  with total_pos_empty [OF assms(3)] show ?thesis
    by (auto simp: settled_def paid_def received_def amt_of_def total_def)
next
  assume "cs = []"
  with total_pos_empty [OF assms(2)] show ?thesis
    by (auto simp: settled_def paid_def received_def amt_of_def total_def)
qed

lemma pay_down_stepped:
  assumes "e_amount e = Fin x" "0 < m" "m \<le> x" "x \<le> max_double"
    "\<forall>y\<in>set es. pos_below max_double (e_amount y)"
  shows "stepped m e es (pay_down (Fin m) e es)"
proof (cases "x = m")
  case True
  with assms(1) have "pay_down (Fin m) e es = es" by (simp add: pay_down_eq)
  with assms(1,5) True show ?thesis
    by (auto simp: stepped_def total_def amt_of_def)
next
  case False
  with assms(3) have "m < x" by simp
  from pay_down_less [OF assms(1,2) this assms(4), of es] obtain z where
    z: "pay_down (Fin m) e es = e\<lparr>e_amount := Fin z\<rparr> # es" "0 < z" "z \<le> max_double"
       "x \<le> 9007199254740992 \<longrightarrow> z = x - m" by blast
  from assms(1,2) z(1-3) assms(5) False have 1:
    "e_id ` set (pay_down (Fin m) e es) \<subseteq> insert (e_id e) (e_id ` set es)"
    "length (pay_down (Fin m) e es) \<le> Suc (length es)"
    "e_amount e = Fin m \<longrightarrow> pay_down (Fin m) e es = es"
    "\<forall>x\<in>set (pay_down (Fin m) e es). pos_below max_double (e_amount x)"
    by auto
  have 2: "list_all (\<lambda>x. pos_below 9007199254740992 (e_amount x)) (pay_down (Fin m) e es) \<and>
        total (pay_down (Fin m) e es) = total (e # es) - m \<and>
        (\<forall>k. amt_of k (pay_down (Fin m) e es) = amt_of k (e # es) - (if e_id e = k then m else 0))"
    if ex: "list_all (\<lambda>x. pos_below 9007199254740992 (e_amount x)) (e # es)"
  proof -
    from ex assms(1) have "x \<le> 9007199254740992" by simp
    with z(4) have zz: "z = x - m" by simp
    with ex assms(1,2) \<open>m < x\<close> show ?thesis
      by (auto simp: z(1) total_def amt_of_def)
  qed
  from 1 2 show ?thesis unfolding stepped_def by blast
qed

lemma stepped_ids: "stepped m e es es' \<Longrightarrow> e_id ` set es' \<subseteq> e_id ` set (e # es)"
  by (simp add: stepped_def)

lemma stepped_length: "stepped m e es es' \<Longrightarrow> length es' \<le> Suc (length es)"
  by (simp add: stepped_def)

lemma stepped_same: "stepped m e es es' \<Longrightarrow> e_amount e = Fin m \<Longrightarrow> es' = es"
  by (simp add: stepped_def)

lemma stepped_pos: "stepped m e es es' \<Longrightarrow> \<forall>x\<in>set es'. pos_below max_double (e_amount x)"
  by (simp add: stepped_def)

lemma stepped_exact:
  assumes "stepped m e es es'" "list_all (\<lambda>x. pos_below 9007199254740992 (e_amount x)) (e # es)"
  shows "list_all (\<lambda>x. pos_below 9007199254740992 (e_amount x)) es'"
    and "total es' = total (e # es) - m"
    and "amt_of k es' = amt_of k (e # es) - (if e_id e = k then m else 0)"
  using assms unfolding stepped_def by blast+

lemma settled_step:
  assumes m: "m = min x y" "0 < m" "e_amount d = Fin x" "e_amount c = Fin y"
    and mmax: "m \<le> max_double"
    and sd: "stepped m d ds ds1" and sc: "stepped m c cs cs1"
    and rest: "settled ds1 cs1 txs"
  shows "settled (d # ds) (c # cs) (\<lparr>fromId = e_id d, toId = e_id c, amount = Fin m\<rparr> # txs)"
proof -
  let ?t = "\<lparr>fromId = e_id d, toId = e_id c, amount = Fin m\<rparr>"
  let ?E = "\<lambda>es. list_all (\<lambda>x. pos_below 9007199254740992 (e_amount x)) es"
  from rest have r1: "ds1 = [] \<or> cs1 = [] \<longrightarrow> txs = []"
    and r2: "ds1 \<noteq> [] \<and> cs1 \<noteq> [] \<longrightarrow> length txs + 1 \<le> length ds1 + length cs1"
    and r3: "\<forall>t\<in>set txs. pos_below max_double (amount t) \<and>
                   fromId t \<in> e_id ` set ds1 \<and> toId t \<in> e_id ` set cs1"
    and r4: "?E (ds1 @ cs1) \<longrightarrow>
        (\<forall>t\<in>set txs. pos_below 9007199254740992 (amount t)) \<and>
        (total ds1 \<le> total cs1 \<longrightarrow> (\<forall>k. paid k txs = amt_of k ds1)) \<and>
        (total cs1 \<le> total ds1 \<longrightarrow> (\<forall>k. received k txs = amt_of k cs1))"
    unfolding settled_def by blast+
  from m(1) have "x = m \<or> y = m" by (auto simp: min_def)
  with m(3,4) stepped_same [OF sd] stepped_same [OF sc] have "ds1 = ds \<or> cs1 = cs" by auto
  with stepped_length [OF sd] stepped_length [OF sc]
  have len: "length ds1 + length cs1 \<le> Suc (length ds + length cs)" by auto
  have A: "length (?t # txs) + 1 \<le> length (d # ds) + length (c # cs)"
  proof (cases "ds1 = [] \<or> cs1 = []")
    case True
    with r1 have "txs = []" by simp
    then show ?thesis by simp
  next
    case False
    with r2 have "length txs + 1 \<le> length ds1 + length cs1" by simp
    with len show ?thesis by simp
  qed
  from r3 stepped_ids [OF sd] stepped_ids [OF sc]
  have B0: "\<forall>t\<in>set txs. pos_below max_double (amount t) \<and>
                   fromId t \<in> e_id ` set (d # ds) \<and> toId t \<in> e_id ` set (c # cs)"
    by blast
  from B0 m(2) mmax have B: "\<forall>t\<in>set (?t # txs). pos_below max_double (amount t) \<and>
                   fromId t \<in> e_id ` set (d # ds) \<and> toId t \<in> e_id ` set (c # cs)"
    by simp
  have C: "?E ((d # ds) @ (c # cs)) \<longrightarrow>
        (\<forall>t\<in>set (?t # txs). pos_below 9007199254740992 (amount t)) \<and>
        (total (d # ds) \<le> total (c # cs) \<longrightarrow> (\<forall>k. paid k (?t # txs) = amt_of k (d # ds))) \<and>
        (total (c # cs) \<le> total (d # ds) \<longrightarrow> (\<forall>k. received k (?t # txs) = amt_of k (c # cs)))"
  proof
    assume ex: "?E ((d # ds) @ (c # cs))"
    then have exd: "?E (d # ds)" and exc: "?E (c # cs)" by simp_all
    note d1 = stepped_exact [OF sd exd] and c1 = stepped_exact [OF sc exc]
    from d1(1) c1(1) have "?E (ds1 @ cs1)" by simp
    with r4 have r: "\<forall>t\<in>set txs. pos_below 9007199254740992 (amount t)"
      "total ds1 \<le> total cs1 \<longrightarrow> (\<forall>k. paid k txs = amt_of k ds1)"
      "total cs1 \<le> total ds1 \<longrightarrow> (\<forall>k. received k txs = amt_of k cs1)"
      by blast+
    from exd m(3) have "x \<le> 9007199254740992" by simp
    with m(1) have mb: "m \<le> 9007199254740992" by (simp add: min_def split: if_splits)
    have 1: "\<forall>t\<in>set (?t # txs). pos_below 9007199254740992 (amount t)"
      using r(1) m(2) mb by simp
    have 2: "paid k (?t # txs) = amt_of k (d # ds)" if "total (d # ds) \<le> total (c # cs)" for k
    proof -
      from that d1(2) c1(2) have "total ds1 \<le> total cs1" by simp
      with r(2) have "paid k txs = amt_of k ds1" by simp
      then show ?thesis by (simp add: d1(3) paid_def)
    qed
    have 3: "received k (?t # txs) = amt_of k (c # cs)" if "total (c # cs) \<le> total (d # ds)" for k
    proof -
      from that d1(2) c1(2) have "total cs1 \<le> total ds1" by simp
      with r(3) have "received k txs = amt_of k cs1" by simp
      then show ?thesis by (simp add: c1(3) received_def)
    qed
    from 1 2 3 show "(\<forall>t\<in>set (?t # txs). pos_below 9007199254740992 (amount t)) \<and>
        (total (d # ds) \<le> total (c # cs) \<longrightarrow> (\<forall>k. paid k (?t # txs) = amt_of k (d # ds))) \<and>
        (total (c # cs) \<le> total (d # ds) \<longrightarrow> (\<forall>k. received k (?t # txs) = amt_of k (c # cs)))"
      by blast
  qed
  have N: "(d # ds = [] \<or> c # cs = [] \<longrightarrow> ?t # txs = [])" by simp
  from A have A': "d # ds \<noteq> [] \<and> c # cs \<noteq> [] \<longrightarrow>
      length (?t # txs) + 1 \<le> length (d # ds) + length (c # cs)" by blast
  show ?thesis unfolding settled_def using N A' B C by (intro conjI)
qed

lemma settle_loop_settled:
  assumes "\<forall>e\<in>set ds. pos_below max_double (e_amount e)"
    "\<forall>e\<in>set cs. pos_below max_double (e_amount e)"
  shows "\<exists>txs. settle_loop ds cs acc = Some (acc @ txs) \<and> settled ds cs txs"
  using assms
proof (induction "length ds + length cs" arbitrary: ds cs acc rule: less_induct)
  case less
  show ?case
  proof (cases "ds = [] \<or> cs = []")
    case True
    from settled_Nil [OF True less.prems] have "settled ds cs []" .
    moreover from True have "settle_loop ds cs acc = Some (acc @ [])" by auto
    ultimately show ?thesis by blast
  next
    case False
    then obtain d ds' c cs' where ds: "ds = d # ds'" and cs: "cs = c # cs'"
      by (cases ds; cases cs) auto
    from less.prems ds cs obtain x y where
      x: "e_amount d = Fin x" "0 < x" "x \<le> max_double" and
      y: "e_amount c = Fin y" "0 < y" "y \<le> max_double"
      by (auto dest!: pos_belowD)
    define m where "m = min x y"
    from x y have m: "0 < m" "m \<le> x" "m \<le> y" "m \<le> max_double" by (auto simp: m_def)
    have jm: "jmin (e_amount d) (e_amount c) = Fin m" by (simp add: x y jmin_Fin m_def)
    let ?t = "\<lparr>fromId = e_id d, toId = e_id c, amount = Fin m\<rparr>"
    let ?ds = "pay_down (Fin m) d ds'" and ?cs = "pay_down (Fin m) c cs'"
    from less.prems ds cs have rest: "\<forall>y\<in>set ds'. pos_below max_double (e_amount y)"
      "\<forall>y\<in>set cs'. pos_below max_double (e_amount y)" by simp_all
    have sd: "stepped m d ds' ?ds"
      by (rule pay_down_stepped [OF x(1) m(1,2) x(3) rest(1)])
    have sc: "stepped m c cs' ?cs"
      by (rule pay_down_stepped [OF y(1) m(1,3) y(3) rest(2)])
    have "x = m \<or> y = m" by (auto simp: m_def min_def)
    with x(1) y(1) stepped_same [OF sd] stepped_same [OF sc] have "?ds = ds' \<or> ?cs = cs'" by auto
    with stepped_length [OF sd] stepped_length [OF sc]
    have shorter: "length ?ds + length ?cs < length ds + length cs" by (auto simp: ds cs)
    from less.hyps [OF shorter stepped_pos [OF sd] stepped_pos [OF sc], of "acc @ [?t]"]
    obtain txs where run: "settle_loop ?ds ?cs (acc @ [?t]) = Some ((acc @ [?t]) @ txs)"
      and st: "settled ?ds ?cs txs" by blast
    have "jlt (Fin 0) (jmin (e_amount d) (e_amount c))" using m(1) by (simp add: jm)
    from settle_loop_Cons [OF this, of ds' cs' acc] run
    have "settle_loop ds cs acc = Some (acc @ ?t # txs)" by (simp add: ds cs jm)
    moreover from settled_step [OF m_def m(1) x(1) y(1) m(4) sd sc st]
    have "settled ds cs (?t # txs)" by (simp add: ds cs)
    ultimately show ?thesis by blast
  qed
qed

lemma settle_loop_stuck_aux:
  assumes "settle_loop ds0 cs0 acc0 = Some y0"
  shows "\<not> (\<exists>d ds' c cs'. ds0 = d # ds' \<and> cs0 = c # cs' \<and> e_amount d = NaN \<and> e_amount c = NaN)"
proof (rule settle_loop.raw_induct
    [where P = "\<lambda>ds cs acc y. \<not> (\<exists>d ds' c cs'. ds = d # ds' \<and> cs = c # cs' \<and>
                   e_amount d = NaN \<and> e_amount c = NaN)", OF _ assms], goal_cases)
  case (1 loop ds cs acc y)
  show ?case
  proof
    assume "\<exists>d ds' c cs'. ds = d # ds' \<and> cs = c # cs' \<and> e_amount d = NaN \<and> e_amount c = NaN"
    then obtain d ds' c cs' where s: "ds = d # ds'" "cs = c # cs'" "e_amount d = NaN" "e_amount c = NaN"
      by blast
    with 1(2) have "loop ds cs acc = Some y" by (simp add: Let_def)
    from 1(1) [OF this] s show False by blast
  qed
qed

lemma settle_loop_stuck:
  assumes "e_amount d = NaN" "e_amount c = NaN"
  shows "settle_loop (d # ds) (c # cs) acc = None"
proof (cases "settle_loop (d # ds) (c # cs) acc")
  case None
  then show ?thesis .
next
  case (Some y)
  from settle_loop_stuck_aux [OF Some] assms show ?thesis by blast
qed

lemma settle_loop_ids:
  assumes "settle_loop ds0 cs0 acc0 = Some txs0"
  shows "\<forall>t\<in>set txs0. t \<in> set acc0 \<or> (fromId t \<in> e_id ` set ds0 \<and> toId t \<in> e_id ` set cs0)"
proof (rule settle_loop.raw_induct
    [where P = "\<lambda>ds cs acc txs. \<forall>t\<in>set txs. t \<in> set acc \<or>
                   (fromId t \<in> e_id ` set ds \<and> toId t \<in> e_id ` set cs)", OF _ assms], goal_cases)
  case (1 loop ds cs acc txs)
  show ?case
  proof (cases "ds = [] \<or> cs = []")
    case True
    with 1(2) have "txs = acc" by (auto split: list.splits)
    then show ?thesis by simp
  next
    case False
    then obtain d ds' c cs' where ds: "ds = d # ds'" and cs: "cs = c # cs'"
      by (cases ds; cases cs) auto
    define amt where "amt = jmin (e_amount d) (e_amount c)"
    define acc1 where "acc1 = (if jlt (Fin 0) amt
        then acc @ [\<lparr>fromId = e_id d, toId = e_id c, amount = amt\<rparr>] else acc)"
    define d1 where "d1 = (if jlt (Fin 0) amt then d\<lparr>e_amount := jsub (e_amount d) amt\<rparr> else d)"
    define c1 where "c1 = (if jlt (Fin 0) amt then c\<lparr>e_amount := jsub (e_amount c) amt\<rparr> else c)"
    define ds1 where "ds1 = (if e_amount d1 = Fin 0 then ds' else d1 # ds')"
    define cs1 where "cs1 = (if e_amount c1 = Fin 0 then cs' else c1 # cs')"
    from 1(2) have call: "loop ds1 cs1 acc1 = Some txs"
      unfolding ds cs ds1_def cs1_def d1_def c1_def acc1_def amt_def by (simp add: Let_def)
    have "e_id d1 = e_id d" "e_id c1 = e_id c" by (simp_all add: d1_def c1_def)
    then have f: "e_id ` set ds1 \<subseteq> e_id ` set ds" "e_id ` set cs1 \<subseteq> e_id ` set cs"
      by (auto simp: ds1_def cs1_def ds cs)
    have g: "\<forall>t\<in>set acc1. t \<in> set acc \<or> (fromId t = e_id d \<and> toId t = e_id c)"
      by (auto simp: acc1_def)
    from 1(1) [OF call] have "\<forall>t\<in>set txs. t \<in> set acc1 \<or>
        (fromId t \<in> e_id ` set ds1 \<and> toId t \<in> e_id ` set cs1)" .
    with f g show ?thesis unfolding ds cs by (metis (no_types, lifting) image_eqI list.set_intros(1) subsetD)
  qed
qed

lemma set_debtors:
  "set (debtors bal) = (\<lambda>(k, a). \<lparr>e_id = k, e_amount = jneg a\<rparr>) ` {(k, a). (k, a) \<in> set bal \<and> jlt a (Fin 0)}"
  by (auto simp: debtors_def set_js_sort)

lemma set_creditors:
  "set (creditors bal) = (\<lambda>(k, a). \<lparr>e_id = k, e_amount = a\<rparr>) ` {(k, a). (k, a) \<in> set bal \<and> jlt (Fin 0) a}"
  by (auto simp: creditors_def set_js_sort)

lemma debtors_ids: "e_id ` set (debtors bal) \<subseteq> fst ` set bal"
  by (force simp: set_debtors)

lemma creditors_ids: "e_id ` set (creditors bal) \<subseteq> fst ` set bal"
  by (force simp: set_creditors)



lemma finite_doubleD: "finite_double v \<Longrightarrow> \<exists>n. v = Fin n \<and> \<bar>n\<bar> \<le> max_double"
  by (cases v) (simp_all add: finite_double_def)



lemma debtors_pos:
  assumes "\<forall>(k, v)\<in>set bal. finite_double v"
  shows "\<forall>e\<in>set (debtors bal). pos_below max_double (e_amount e)"
proof
  fix e assume "e \<in> set (debtors bal)"
  then obtain k a where e: "e = \<lparr>e_id = k, e_amount = jneg a\<rparr>" "(k, a) \<in> set bal" "jlt a (Fin 0)"
    by (auto simp: set_debtors)
  from assms e(2) have "finite_double a" by auto
  then obtain n where "a = Fin n" "\<bar>n\<bar> \<le> max_double" by (auto dest: finite_doubleD)
  with e show "pos_below max_double (e_amount e)" by simp
qed

lemma creditors_pos:
  assumes "\<forall>(k, v)\<in>set bal. finite_double v"
  shows "\<forall>e\<in>set (creditors bal). pos_below max_double (e_amount e)"
proof
  fix e assume "e \<in> set (creditors bal)"
  then obtain k a where e: "e = \<lparr>e_id = k, e_amount = a\<rparr>" "(k, a) \<in> set bal" "jlt (Fin 0) a"
    by (auto simp: set_creditors)
  from assms e(2) have "finite_double a" by auto
  then obtain n where "a = Fin n" "\<bar>n\<bar> \<le> max_double" by (auto dest: finite_doubleD)
  with e show "pos_below max_double (e_amount e)" by simp
qed







section \<open>Settlement, summary and removal\<close>

lemma finalSettlement_settled:
  assumes "\<forall>(k, v)\<in>set bal. finite_double v"
  shows "\<exists>txs. settle_loop (debtors bal) (creditors bal) [] = Some txs \<and>
         settled (debtors bal) (creditors bal) txs \<and>
         finalSettlement bal = Some (js_sort (\<lambda>a b. jsub (amount b) (amount a)) txs)"
proof -
  from settle_loop_settled [OF debtors_pos [OF assms] creditors_pos [OF assms], of "[]"]
  obtain txs where "settle_loop (debtors bal) (creditors bal) [] = Some txs"
    "settled (debtors bal) (creditors bal) txs" by auto
  then show ?thesis by (auto simp: finalSettlement_def)
qed


lemma finalSettlement_ids:
  assumes "finalSettlement bal = Some txs"
  shows "\<forall>t\<in>set txs. fromId t \<in> fst ` set bal \<and> toId t \<in> fst ` set bal"
proof -
  from assms obtain txs0 where l: "settle_loop (debtors bal) (creditors bal) [] = Some txs0"
    and t: "txs = js_sort (\<lambda>a b. jsub (amount b) (amount a)) txs0"
    by (auto simp: finalSettlement_def)
  from settle_loop_ids [OF l] debtors_ids [of bal] creditors_ids [of bal]
  have "\<forall>t\<in>set txs0. fromId t \<in> fst ` set bal \<and> toId t \<in> fst ` set bal" by auto
  then show ?thesis by (simp add: t set_js_sort)
qed







lemma person_row_id [simp]: "personId (person_row txs p) = pid p"
  by (simp add: person_row_def Let_def)


lemma settlementByPerson_set:
  "set (settlementByPerson txs ps) = person_row txs ` set ps"
  by (simp add: settlementByPerson_def set_js_sort)


lemma fold_jadd_skip:
  assumes "\<forall>p\<in>set ps. (Q p \<longrightarrow> f p = g p) \<and> (\<not> Q p \<longrightarrow> g p = Fin 0)"
    and "jadd s (Fin 0) = s"
  shows "fold (\<lambda>p s. jadd s (f p)) (filter Q ps) s = fold (\<lambda>p s. jadd s (g p)) ps s"
  using assms
proof (induction ps arbitrary: s)
  case Nil
  show ?case by simp
next
  case (Cons p ps)
  show ?case
  proof (cases "Q p")
    case True
    with Cons.prems have "f p = g p" by simp
    moreover have "jadd (jadd s (g p)) (Fin 0) = jadd s (g p)" by (rule jadd_settled)
    ultimately show ?thesis using True Cons by simp
  next
    case False
    with Cons.prems have "g p = Fin 0" by simp
    with False Cons show ?thesis by simp
  qed
qed

lemma remove_from_round_simps [simp]:
  "bankerId (remove_from_round x r) = (if bankerId r = x then [] else bankerId r)"
  "rvalues (remove_from_round x r) = (rvalues r)(x := None)"
  by (simp_all add: remove_from_round_def)

lemma sumParticipants_remove:
  assumes "bankerId r \<noteq> x" "value_or_zero (rvalues r) x = Fin 0"
  shows "sumParticipants (filter (\<lambda>p. pid p \<noteq> x) ps) (remove_from_round x r) = sumParticipants ps r"
proof -
  have "fold (\<lambda>p s. jadd s (value_or_zero ((rvalues r)(x := None)) (pid p)))
          (filter (\<lambda>p. pid p \<noteq> x) (filter (\<lambda>p. pid p \<noteq> bankerId r) ps)) (Fin 0) =
        fold (\<lambda>p s. jadd s (value_or_zero (rvalues r) (pid p)))
          (filter (\<lambda>p. pid p \<noteq> bankerId r) ps) (Fin 0)"
    using assms(2) by (intro fold_jadd_skip) (auto simp: value_or_zero_def)
  with assms(1) show ?thesis
    by (simp add: sumParticipants_def conj_commute)
qed

lemma normalized_remove:
  assumes "q \<noteq> x" "bankerId r \<noteq> x" "bankerId r = q \<longrightarrow> value_or_zero (rvalues r) x = Fin 0"
  shows "normalized (filter (\<lambda>p. pid p \<noteq> x) ps) (remove_from_round x r) q = normalized ps r q"
proof (cases "bankerId r = q")
  case True
  with assms have "sumParticipants (filter (\<lambda>p. pid p \<noteq> x) ps) (remove_from_round x r) = sumParticipants ps r"
    by (intro sumParticipants_remove) auto
  with True assms(1,2) show ?thesis
    by (simp add: normalized_def finalValues_def)
next
  case False
  with assms(1,2) show ?thesis
    by (simp add: normalized_def finalValues_def)
qed

lemma add_round_remove:
  assumes "q \<noteq> x" "bankerId r = q \<longrightarrow> value_or_zero (rvalues r) x = Fin 0"
  shows "add_round (filter (\<lambda>p. pid p \<noteq> x) ps) q (remove_from_round x r) a =
           (if bankerId r = x then a else add_round ps q r a)"
proof (cases "bankerId r = x \<or> bankerId r = []")
  case True
  then show ?thesis by (auto simp: add_round_def)
next
  case False
  with normalized_remove [OF assms(1) _ assms(2), of ps] show ?thesis
    by (simp add: add_round_def)
qed

lemma balance_remove:
  assumes "q \<noteq> x" "\<forall>r\<in>set rs. bankerId r = q \<longrightarrow> value_or_zero (rvalues r) x = Fin 0"
  shows "balance (totals (filter (\<lambda>p. pid p \<noteq> x) ps) (map (remove_from_round x) rs)) q =
         balance (totals ps (filter (\<lambda>r. bankerId r \<noteq> x) rs)) q"
proof -
  from assms(2)
  have "fold (add_round (filter (\<lambda>p. pid p \<noteq> x) ps) q) (map (remove_from_round x) rs) a =
        fold (add_round ps q) (filter (\<lambda>r. bankerId r \<noteq> x) rs) a" for a
    by (induction rs arbitrary: a) (simp_all add: add_round_remove [OF assms(1)])
  moreover from assms(1) have "q \<in> pid ` set (filter (\<lambda>p. pid p \<noteq> x) ps) \<longleftrightarrow> q \<in> pid ` set ps"
    by auto
  ultimately show ?thesis by (simp only: balance_totals)
qed

lemma removed_not_in_debts:
  assumes "d \<in> set (debtsByRound (filter (\<lambda>p. pid p \<noteq> x) ps) (map (remove_from_round x) rs))"
  shows "d_bankerId d \<noteq> x \<and> d_fromId d \<noteq> x \<and> d_toId d \<noteq> x"
proof -
  from assms have "d \<in> set (debts_spec (filter (\<lambda>p. pid p \<noteq> x) ps) (map (remove_from_round x) rs))"
    by (simp add: debtsByRound_spec)
  from debts_ids [OF this] have b: "d_bankerId d \<in> bankerId ` set (map (remove_from_round x) rs)"
    "d_bankerId d \<noteq> []"
    and f: "d_fromId d \<in> insert (d_bankerId d) (pid ` set (filter (\<lambda>p. pid p \<noteq> x) ps))"
    and t: "d_toId d \<in> insert (d_bankerId d) (pid ` set (filter (\<lambda>p. pid p \<noteq> x) ps))"
    by blast+
  from b have "d_bankerId d \<noteq> x" by (auto split: if_splits)
  with f t show ?thesis by auto
qed

lemma totals_drop_bankerless:
  "bankerId r = [] \<Longrightarrow> totals ps (rs1 @ r # rs2) = totals ps (rs1 @ rs2)"
  by (simp add: totals_def totals_round_def)

lemma totals_round_stale:
  assumes "bankerId r \<noteq> []" "bankerId r \<notin> fst ` set acc"
  shows "totals_round ps r acc =
           map (\<lambda>(k, a). (k, jadd a (Fin (finite_or_zero (value_or_zero (rvalues r) k))))) acc"
proof -
  from assms(2) have "k \<noteq> bankerId r" if "(k, a) \<in> set acc" for k a
    using that by force
  with assms(1) show ?thesis by (auto simp: totals_round_def normalized_other)
qed

lemma fold_totals_round_key_set: "fst ` set (fold (totals_round ps) rs acc) = fst ` set acc"
proof -
  have "set (map fst (fold (totals_round ps) rs acc)) = set (map fst acc)"
    by (simp only: fold_totals_round_keys)
  then show ?thesis by simp
qed

lemma nonfinite_value_others:
  assumes "k \<noteq> bankerId r" "\<not> isFinite (value_or_zero (rvalues r) j)"
  shows "normalized ps (r\<lparr>rvalues := (rvalues r)(j \<mapsto> Fin 0)\<rparr>) k = normalized ps r k"
proof (cases "k = j")
  case True
  from assms(2) have "finite_or_zero (value_or_zero (rvalues r) j) = 0"
    by (cases "value_or_zero (rvalues r) j") simp_all
  with assms(1) True show ?thesis
    by (simp add: normalized_other) (simp add: value_or_zero_def)
next
  case False
  with assms(1) show ?thesis
    by (simp add: normalized_other) (simp add: value_or_zero_def)
qed

section \<open>Evaluation\<close>

lemmas ex_defs = ex_players_def ex_round1_def ex_round_stale_def ex_round_inf_def
  ex_round_open_def ex_round_one_def ex_round_two53_def ex_round_mixed_def

lemmas totals_eval = totals_def totals_round_def normalized_def finalValues_def
  sumParticipants_def value_or_zero_def fl_exact

lemmas settlement_eval = finalSettlement_def debtors_def creditors_def js_sort_def
  settle_loop.simps jsub_def fl_exact


lemmas debts_eval = debtsByRound_def debts_round_def debt_step_def value_or_zero_def







lemma ex_totals_rounding_a:
  "totals ex_players [ex_round_two53, ex_round_one, ex_round_one] =
     [(''a'', Fin (- 9007199254740992)), (''b'', Fin 9007199254740992), (''c'', Fin 0)]"
  by (simp add: ex_defs totals_eval fl_tie_even fl_neg)

lemma ex_totals_rounding_b:
  "totals ex_players [ex_round_one, ex_round_one, ex_round_two53] =
     [(''a'', Fin (- 9007199254740994)), (''b'', Fin 9007199254740994), (''c'', Fin 0)]"
  by (simp add: ex_defs totals_eval fl_two53_plus2 fl_neg)

lemma ex_totals_mixed:
  "totals ex_players [ex_round_mixed] =
     [(''a'', Fin (- 9007199254740992)), (''b'', Fin 9007199254740992), (''c'', Fin 1)]"
  by (simp add: ex_defs totals_eval fl_tie_even fl_neg)

lemma ex_totals_huge:
  "totals ex_players [ex_round_huge, ex_round_huge] =
     [(''a'', NegInf), (''b'', PosInf), (''c'', Fin 0)]"
proof -
  have s: "sumParticipants ex_players ex_round_huge = Fin (2 ^ 1023)"
    using fl_pow1023 by (simp add: ex_players_def ex_round_huge_def sumParticipants_def value_or_zero_def)
  have n: "normalized ex_players ex_round_huge ''a'' = - (2 ^ 1023)"
    "normalized ex_players ex_round_huge ''b'' = 2 ^ 1023"
    "normalized ex_players ex_round_huge ''c'' = 0"
    unfolding normalized_def finalValues_def s by (simp_all add: ex_round_huge_def)
  have one: "totals_round ex_players ex_round_huge [(''a'', Fin 0), (''b'', Fin 0), (''c'', Fin 0)] =
     [(''a'', Fin (- (2 ^ 1023))), (''b'', Fin (2 ^ 1023)), (''c'', Fin 0)]"
    unfolding totals_round_def using fl_pow1023 fl_neg [of "2 ^ 1023"]
    by (simp add: n) (simp add: ex_round_huge_def)
  have dbl: "(2::int) ^ 1023 + 2 ^ 1023 = 2 ^ 1024" by simp
  have dbl': "- ((2::int) ^ 1023) - 2 ^ 1023 = - (2 ^ 1024)" by simp
  have two: "totals_round ex_players ex_round_huge
       [(''a'', Fin (- (2 ^ 1023))), (''b'', Fin (2 ^ 1023)), (''c'', Fin 0)] =
     [(''a'', NegInf), (''b'', PosInf), (''c'', Fin 0)]"
    unfolding totals_round_def using fl_overflow fl_neg [of "2 ^ 1024"]
    by (simp add: n) (simp add: ex_round_huge_def)
  have init: "fold (\<lambda>p acc. AList.update (pid p) (Fin 0) acc) ex_players [] =
      [(''a'', Fin 0), (''b'', Fin 0), (''c'', Fin 0)]"
    by (simp add: ex_players_def)
  show ?thesis by (simp only: totals_def init fold.simps comp_apply id_apply one two)
qed

lemma ex_settlement_huge: "finalSettlement [(''a'', NegInf), (''b'', PosInf), (''c'', Fin 0)] = None"
proof -
  have d: "debtors [(''a'', NegInf), (''b'', PosInf), (''c'', Fin 0)] = [\<lparr>e_id = ''a'', e_amount = PosInf\<rparr>]"
    by (simp add: debtors_def js_sort_def)
  have c: "creditors [(''a'', NegInf), (''b'', PosInf), (''c'', Fin 0)] = [\<lparr>e_id = ''b'', e_amount = PosInf\<rparr>]"
    by (simp add: creditors_def js_sort_def)
  have "settle_loop [\<lparr>e_id = ''a'', e_amount = PosInf\<rparr>] [\<lparr>e_id = ''b'', e_amount = PosInf\<rparr>] [] =
        settle_loop [\<lparr>e_id = ''a'', e_amount = NaN\<rparr>] [\<lparr>e_id = ''b'', e_amount = NaN\<rparr>]
          [\<lparr>fromId = ''a'', toId = ''b'', amount = PosInf\<rparr>]"
    by (subst settle_loop.simps) (simp add: jsub_def)
  also have "\<dots> = None" by (rule settle_loop_stuck) simp_all
  finally show ?thesis by (simp add: finalSettlement_def d c)
qed

lemma ex_settlement_rounding:
  "finalSettlement [(''a'', Fin (- 9007199254740994)), (''b'', Fin 1), (''c'', Fin 1),
                    (''d'', Fin 9007199254740992)] =
     Some [\<lparr>fromId = ''a'', toId = ''d'', amount = Fin 9007199254740991\<rparr>,
           \<lparr>fromId = ''a'', toId = ''b'', amount = Fin 1\<rparr>,
           \<lparr>fromId = ''a'', toId = ''c'', amount = Fin 1\<rparr>]"
  by (simp add: settlement_eval fl_tie_even Let_def)

lemma ex_round_mixed_rounding:
  "finite_round ex_players ex_round_mixed \<and>
   normalized ex_players ex_round_mixed ''a'' = - 9007199254740992 \<and>
   (\<Sum>p\<leftarrow>ex_players. normalized ex_players ex_round_mixed (pid p)) = 1"
  by (simp add: ex_defs finite_round_def totals_eval fl_tie_even)

section \<open>The claims\<close>

subsection \<open>C1: settlement closure\<close>




subsection \<open>C2: a normalized round is zero-sum\<close>




subsection \<open>C3: balance conservation\<close>




subsection \<open>C4: the settlement minimizer\<close>



text \<open>
  The claim as stated, for every balance mapping, fails: two rounds in which \<open>b\<close> wins
  \<open>2^1023\<close> from the banker \<open>a\<close> overflow to the balances \<open>a: -Infinity, b: Infinity\<close>,
  and on these the loop never returns (\<open>Infinity - Infinity\<close> is NaN, and no index moves
  again).
\<close>

theorem settlement_bounds_counterexample:
  "totals ex_players [ex_round_huge, ex_round_huge] =
     [(''a'', NegInf), (''b'', PosInf), (''c'', Fin 0)] \<and>
   finalSettlement (totals ex_players [ex_round_huge, ex_round_huge]) = None"
  by (simp add: ex_totals_huge ex_settlement_huge)

subsection \<open>C5: the debt expander\<close>

text \<open>
  C5. The debt expander computes what the specification says: for every round with a banker
  and every roster player other than the banker whose recorded value \<open>v\<close> is finite and not
  0, exactly one item of amount \<open>|v|\<close>, from the banker to the player when \<open>v > 0\<close> and from
  the player to the banker when \<open>v < 0\<close>; no item for a zero, missing or non-finite value;
  items grouped by round in round order, and in roster order within a round.
\<close>

theorem debts_expander_spec: "debtsByRound ps rs = debts_spec ps rs"
  by (rule debtsByRound_spec)

text \<open>
  The scenario round gives two items; in the second round the infinite entry of \<open>b\<close> gives
  none.
\<close>

theorem debts_expander_spec_witness:
  "debtsByRound ex_players [ex_round1, ex_round_inf] =
     [\<lparr>roundIndex = 1, d_bankerId = ''a'', d_fromId = ''a'', d_toId = ''b'', d_amount = 50\<rparr>,
      \<lparr>roundIndex = 1, d_bankerId = ''a'', d_fromId = ''c'', d_toId = ''a'', d_amount = 20\<rparr>,
      \<lparr>roundIndex = 2, d_bankerId = ''a'', d_fromId = ''a'', d_toId = ''c'', d_amount = 10\<rparr>]"
  using debts_expander_spec [of ex_players "[ex_round1, ex_round_inf]"]
  by (simp add: ex_defs debts_spec_def round_debts_spec_def debt_of_def value_or_zero_def)

subsection \<open>C6: removing a player\<close>

text \<open>
  C6, as amended. After \<open>removePlayer x\<close> the id \<open>x\<close> is no key of the balances, no banker,
  payer or payee of a debt item, no payer or payee of a transaction of the settlement
  (whenever the settlement loop returns, and it returns whenever the balances are finite),
  and no person of the summary. A remaining player \<open>q\<close> who was never banker of a round in
  which \<open>x\<close> has a non-zero recorded value keeps the balance that the rounds not banked by
  \<open>x\<close> gave before the removal. (As banker of such a round, \<open>q\<close> loses the entry of \<open>x\<close>
  from the implied banker value.) The balance equation holds with rounding as well: both
  sides add the same doubles in the same order.
\<close>

theorem remove_player_cascade:
  assumes "removePlayer x (ps, rs) = (ps', rs')"
  shows "x \<notin> fst ` set (totals ps' rs') \<and>
         (\<forall>d\<in>set (debtsByRound ps' rs'). d_bankerId d \<noteq> x \<and> d_fromId d \<noteq> x \<and> d_toId d \<noteq> x) \<and>
         (\<forall>txs. finalSettlement (totals ps' rs') = Some txs \<longrightarrow>
                (\<forall>t\<in>set txs. fromId t \<noteq> x \<and> toId t \<noteq> x)) \<and>
         (list_all (\<lambda>(k, v). finite_double v) (totals ps' rs') \<longrightarrow>
                (\<exists>txs. finalSettlement (totals ps' rs') = Some txs)) \<and>
         (\<forall>txs. \<forall>s\<in>set (settlementByPerson txs ps'). personId s \<noteq> x) \<and>
         (\<forall>q. q \<noteq> x \<and> (\<forall>r\<in>set rs. bankerId r = q \<longrightarrow> value_or_zero (rvalues r) x = Fin 0) \<longrightarrow>
              balance (totals ps' rs') q = balance (totals ps (filter (\<lambda>r. bankerId r \<noteq> x) rs)) q)"
proof -
  from assms have ps': "ps' = filter (\<lambda>p. pid p \<noteq> x) ps" and rs': "rs' = map (remove_from_round x) rs"
    by (simp_all add: removePlayer_def)
  have keys: "x \<notin> fst ` set (totals ps' rs')"
    by (auto simp: totals_keys ps')
  have tx: "\<forall>txs. finalSettlement (totals ps' rs') = Some txs \<longrightarrow>
                (\<forall>t\<in>set txs. fromId t \<noteq> x \<and> toId t \<noteq> x)"
  proof (intro allI impI)
    fix txs assume "finalSettlement (totals ps' rs') = Some txs"
    from finalSettlement_ids [OF this] keys show "\<forall>t\<in>set txs. fromId t \<noteq> x \<and> toId t \<noteq> x"
      by metis
  qed
  have ret: "list_all (\<lambda>(k, v). finite_double v) (totals ps' rs') \<longrightarrow>
                (\<exists>txs. finalSettlement (totals ps' rs') = Some txs)"
  proof
    assume "list_all (\<lambda>(k, v). finite_double v) (totals ps' rs')"
    then have "\<forall>(k, v)\<in>set (totals ps' rs'). finite_double v" by (simp add: list_all_iff)
    from finalSettlement_settled [OF this] show "\<exists>txs. finalSettlement (totals ps' rs') = Some txs"
      by blast
  qed
  have rows: "\<forall>txs. \<forall>s\<in>set (settlementByPerson txs ps'). personId s \<noteq> x"
    by (auto simp: settlementByPerson_set ps')
  have debts: "\<forall>d\<in>set (debtsByRound ps' rs'). d_bankerId d \<noteq> x \<and> d_fromId d \<noteq> x \<and> d_toId d \<noteq> x"
    unfolding ps' rs' using removed_not_in_debts by blast
  have bal: "\<forall>q. q \<noteq> x \<and> (\<forall>r\<in>set rs. bankerId r = q \<longrightarrow> value_or_zero (rvalues r) x = Fin 0) \<longrightarrow>
              balance (totals ps' rs') q = balance (totals ps (filter (\<lambda>r. bankerId r \<noteq> x) rs)) q"
    unfolding ps' rs' using balance_remove by blast
  from keys debts tx ret rows bal show ?thesis by (intro conjI)
qed

text \<open>
  Removing \<open>c\<close> after the scenario round: \<open>b\<close> was not the banker, and keeps the balance 50.
\<close>

theorem remove_player_cascade_witness:
  "''c'' \<notin> fst ` set (totals (fst (removePlayer ''c'' (ex_players, [ex_round1])))
                              (snd (removePlayer ''c'' (ex_players, [ex_round1])))) \<and>
   bankerId ex_round1 \<noteq> ''b'' \<and>
   balance (totals (fst (removePlayer ''c'' (ex_players, [ex_round1])))
                   (snd (removePlayer ''c'' (ex_players, [ex_round1])))) ''b'' =
     balance (totals ex_players [ex_round1]) ''b''"
proof -
  have b: "bankerId ex_round1 \<noteq> ''b''" "bankerId ex_round1 \<noteq> ''c''"
    by (simp_all add: ex_round1_def)
  from remove_player_cascade [of "''c''" ex_players "[ex_round1]"
      "fst (removePlayer ''c'' (ex_players, [ex_round1]))"
      "snd (removePlayer ''c'' (ex_players, [ex_round1]))"]
  show ?thesis using b by simp
qed

text \<open>
  The claim as stated fails: \<open>b\<close> was never banker, yet removing \<open>b\<close> changes the balance
  of the banker \<open>a\<close> from -30 to 20.
\<close>

theorem remove_player_counterexample:
  "bankerId ex_round1 \<noteq> ''b'' \<and>
   balance (totals ex_players [ex_round1]) ''a'' = Fin (- 30) \<and>
   balance (totals (fst (removePlayer ''b'' (ex_players, [ex_round1])))
                   (snd (removePlayer ''b'' (ex_players, [ex_round1])))) ''a'' = Fin 20"
  by (simp add: ex_defs totals_eval balance_def removePlayer_def remove_from_round_def)

subsection \<open>C7: a round whose banker is not on the roster\<close>

text \<open>
  C7, as amended. A round whose banker is set but not on the roster adds to the balance of
  every roster player that player's own recorded value (0 when it is missing or not
  finite); only the banker's implied value is dropped. The addition is the addition of
  doubles, at the position of the round; in the exact range the final balance is the
  balance without the round plus that value.
\<close>

theorem stale_banker_round:
  assumes "bankerId r \<noteq> []" "bankerId r \<notin> pid ` set ps"
  shows "totals ps (rs1 @ r # rs2) =
           fold (totals_round ps) rs2
             (map (\<lambda>(k, a). (k, jadd a (Fin (finite_or_zero (value_or_zero (rvalues r) k)))))
                  (totals ps rs1)) \<and>
         (\<forall>k\<in>pid ` set ps.
            balance (totals ps (rs1 @ [r])) k =
              jadd (balance (totals ps rs1) k) (Fin (finite_or_zero (value_or_zero (rvalues r) k)))) \<and>
         (exact_rounds ps (rs1 @ r # rs2) \<longrightarrow>
            (\<forall>k\<in>pid ` set ps.
               balance (totals ps (rs1 @ r # rs2)) k =
                 Fin (finite_or_zero (balance (totals ps (rs1 @ rs2)) k) +
                      finite_or_zero (value_or_zero (rvalues r) k))))"
proof -
  from assms(2) have nk: "bankerId r \<notin> fst ` set (totals ps rs1)" by (simp add: totals_keys)
  have step: "totals ps (rs1 @ [r]) =
      map (\<lambda>(k, a). (k, jadd a (Fin (finite_or_zero (value_or_zero (rvalues r) k))))) (totals ps rs1)"
    using totals_round_stale [OF assms(1) nk, of ps] by (simp add: totals_def)
  have A: "totals ps (rs1 @ r # rs2) =
           fold (totals_round ps) rs2
             (map (\<lambda>(k, a). (k, jadd a (Fin (finite_or_zero (value_or_zero (rvalues r) k)))))
                  (totals ps rs1))"
    using step by (simp add: totals_def)
  have B: "balance (totals ps (rs1 @ [r])) k =
              jadd (balance (totals ps rs1) k) (Fin (finite_or_zero (value_or_zero (rvalues r) k)))"
    if "k \<in> pid ` set ps" for k
  proof -
    from that assms(2) have "k \<noteq> bankerId r" by blast
    with that assms(1) show ?thesis
      by (simp add: balance_totals add_round_def normalized_other)
  qed
  have C: "balance (totals ps (rs1 @ r # rs2)) k =
                 Fin (finite_or_zero (balance (totals ps (rs1 @ rs2)) k) +
                      finite_or_zero (value_or_zero (rvalues r) k))"
    if ex: "exact_rounds ps (rs1 @ r # rs2)" and k: "k \<in> pid ` set ps" for k
  proof -
    from k assms(2) have kb: "k \<noteq> bankerId r" by blast
    from ex round_volume_nonneg [of ps r] have ex': "exact_rounds ps (rs1 @ rs2)"
      by (auto simp: exact_rounds_def volume_def split: if_splits)
    from kb assms(1) have "contribution ps r k = finite_or_zero (value_or_zero (rvalues r) k)"
      by (simp add: contribution_def normalized_other)
    then show ?thesis
      by (simp add: balance_totals_exact [OF ex k] balance_totals_exact [OF ex' k])
  qed
  from A B C show ?thesis by blast
qed

text \<open>
  After the scenario round, the round banked by \<open>z\<close> adds 5 to the balance of \<open>a\<close>.
\<close>

theorem stale_banker_round_witness:
  "bankerId ex_round_stale \<noteq> [] \<and> bankerId ex_round_stale \<notin> pid ` set ex_players \<and>
   ''a'' \<in> pid ` set ex_players \<and>
   balance (totals ex_players ([ex_round1] @ [ex_round_stale])) ''a'' =
     jadd (balance (totals ex_players [ex_round1]) ''a'') (Fin 5)"
proof -
  have h: "bankerId ex_round_stale \<noteq> []" "bankerId ex_round_stale \<notin> pid ` set ex_players"
    "''a'' \<in> pid ` set ex_players"
    by (simp_all add: ex_defs)
  from stale_banker_round [OF h(1,2), of "[ex_round1]" "[]"] h(3)
  have "balance (totals ex_players ([ex_round1] @ [ex_round_stale])) ''a'' =
     jadd (balance (totals ex_players [ex_round1]) ''a'')
          (Fin (finite_or_zero (value_or_zero (rvalues ex_round_stale) ''a'')))" by blast
  with h show ?thesis by (simp add: ex_round_stale_def value_or_zero_def)
qed

text \<open>
  The claim as stated fails: the round banked by \<open>z\<close>, who is not on the roster, raises the
  balance of \<open>a\<close> from 0 to 5.
\<close>

theorem stale_banker_counterexample:
  "bankerId ex_round_stale \<noteq> [] \<and> bankerId ex_round_stale \<notin> pid ` set ex_players \<and>
   balance (totals ex_players []) ''a'' = Fin 0 \<and>
   balance (totals ex_players [ex_round_stale]) ''a'' = Fin 5"
  by (simp add: ex_defs totals_eval balance_def)

subsection \<open>C8: non-finite values\<close>

text \<open>
  C8 fails on the code. The banker's sum is taken over the raw values, so an infinite entry
  of \<open>b\<close> makes the banker's normalized value infinite, and the aggregator then reads it as
  0: the banker \<open>a\<close> has balance 0. With the entry of \<open>b\<close> replaced by 0 the banker has
  balance -10. (For the other players a non-finite value is read as 0, lemma
  \<open>nonfinite_value_others\<close>.)
\<close>

theorem nonfinite_value_banker:
  "totals ex_players [ex_round_inf] = [(''a'', Fin 0), (''b'', Fin 0), (''c'', Fin 10)] \<and>
   totals ex_players [ex_round_inf\<lparr>rvalues := (rvalues ex_round_inf)(''b'' \<mapsto> Fin 0)\<rparr>] =
     [(''a'', Fin (- 10)), (''b'', Fin 0), (''c'', Fin 10)]"
  by (simp add: ex_defs totals_eval)

subsection \<open>C9: the order of the rounds\<close>



text \<open>
  The claim as stated fails, since the addition of doubles is not associative: \<open>b\<close> wins
  \<open>2^53\<close>, 1 and 1 from the banker \<open>a\<close>. In this order the balance of \<open>b\<close> is \<open>2^53\<close>
  (twice \<open>2^53 + 1\<close> rounds back to \<open>2^53\<close>); with the two small rounds first it is
  \<open>2^53 + 2\<close>.
\<close>

theorem totals_round_order_counterexample:
  "mset [ex_round_two53, ex_round_one, ex_round_one] =
     mset [ex_round_one, ex_round_one, ex_round_two53] \<and>
   totals ex_players [ex_round_two53, ex_round_one, ex_round_one] =
     [(''a'', Fin (- 9007199254740992)), (''b'', Fin 9007199254740992), (''c'', Fin 0)] \<and>
   totals ex_players [ex_round_one, ex_round_one, ex_round_two53] =
     [(''a'', Fin (- 9007199254740994)), (''b'', Fin 9007199254740994), (''c'', Fin 0)]"
  by (simp add: ex_totals_rounding_a ex_totals_rounding_b)

subsection \<open>C10: a round without a banker\<close>

text \<open>
  C10, as amended. Removing a round with no banker, whatever its values, leaves the
  balances and the settlement as they were; the debt items are the same items in the same
  order, except that the items of later rounds carry a \<open>roundIndex\<close> smaller by one.
\<close>

theorem bankerless_round_dropped:
  assumes "bankerId r = []"
  shows "totals ps (rs1 @ rs2) = totals ps (rs1 @ r # rs2) \<and>
         finalSettlement (totals ps (rs1 @ rs2)) = finalSettlement (totals ps (rs1 @ r # rs2)) \<and>
         debtsByRound ps (rs1 @ rs2) = map (renumber (length rs1)) (debtsByRound ps (rs1 @ r # rs2))"
  using assms
  by (simp add: totals_drop_bankerless debtsByRound_spec debts_drop_bankerless [of r ps rs1 rs2])

text \<open>
  The scenario round with a banker-less round in front of it.
\<close>

theorem bankerless_round_dropped_witness:
  "bankerId ex_round_open = [] \<and>
   totals ex_players ([] @ [ex_round1]) = totals ex_players ([] @ ex_round_open # [ex_round1]) \<and>
   debtsByRound ex_players ([] @ [ex_round1]) =
     map (renumber (length ([] :: GameRound list)))
       (debtsByRound ex_players ([] @ ex_round_open # [ex_round1]))"
  using bankerless_round_dropped [of ex_round_open ex_players "[]" "[ex_round1]"]
  by (simp add: ex_round_open_def)

text \<open>
  The claim as stated fails for the debt items: with the banker-less round in front the
  items of the scenario round carry \<open>roundIndex\<close> 2, without it 1.
\<close>

theorem bankerless_round_counterexample:
  "bankerId ex_round_open = [] \<and>
   debtsByRound ex_players [ex_round_open, ex_round1] =
     [\<lparr>roundIndex = 2, d_bankerId = ''a'', d_fromId = ''a'', d_toId = ''b'', d_amount = 50\<rparr>,
      \<lparr>roundIndex = 2, d_bankerId = ''a'', d_fromId = ''c'', d_toId = ''a'', d_amount = 20\<rparr>] \<and>
   debtsByRound ex_players [ex_round1] =
     [\<lparr>roundIndex = 1, d_bankerId = ''a'', d_fromId = ''a'', d_toId = ''b'', d_amount = 50\<rparr>,
      \<lparr>roundIndex = 1, d_bankerId = ''a'', d_fromId = ''c'', d_toId = ''a'', d_amount = 20\<rparr>]"
  by (simp add: ex_defs debts_eval)

end
